theory Spec2Isabelle
  imports Complex_Main
begin

section \<open>Python values\<close>

text \<open>
  A Python \<open>str\<close> is a sequence of Unicode code points. A code point is modelled by its
  number, so that the classification of the code points above 255 (U+2028, U+3000, ...)
  is part of the model. \<open>ustr\<close> turns a literal into such a sequence.
\<close>

type_synonym codepoint = nat
type_synonym pystr = "codepoint list"

definition ustr :: "string \<Rightarrow> pystr" where
  "ustr s = map of_char s"

definition LF :: codepoint where
  "LF = 10"

definition CR :: codepoint where
  "CR = 13"

text \<open>
  \<open>str.isspace\<close> for one code point; \<open>str.strip()\<close> and the regular expression class
  \<open>\s\<close> of a \<open>str\<close> pattern use the same table.
\<close>

definition isspace :: "codepoint \<Rightarrow> bool" where
  "isspace c \<longleftrightarrow>
     (9 \<le> c \<and> c \<le> 13) \<or> (28 \<le> c \<and> c \<le> 32) \<or> c = 133 \<or> c = 160 \<or> c = 5760 \<or>
     (8192 \<le> c \<and> c \<le> 8202) \<or> c = 8232 \<or> c = 8233 \<or> c = 8239 \<or> c = 8287 \<or> c = 12288"

text \<open>The line boundaries of \<open>str.splitlines()\<close> (CR LF counts as one boundary).\<close>

definition is_linebreak :: "codepoint \<Rightarrow> bool" where
  "is_linebreak c \<longleftrightarrow>
     (10 \<le> c \<and> c \<le> 13) \<or> (28 \<le> c \<and> c \<le> 30) \<or> c = 133 \<or> c = 8232 \<or> c = 8233"

text \<open>\<open>s.strip()\<close>: leading and trailing whitespace removed.\<close>

definition strip :: "pystr \<Rightarrow> pystr" where
  "strip s = rev (dropWhile isspace (rev (dropWhile isspace s)))"

text \<open>\<open>s.splitlines()\<close>; \<open>cur\<close> is the current line, reversed.\<close>

fun splitlines_from :: "pystr \<Rightarrow> pystr \<Rightarrow> pystr list" where
  "splitlines_from cur [] = (if cur = [] then [] else [rev cur])"
| "splitlines_from cur [c] =
     (if is_linebreak c then [rev cur] else [rev (c # cur)])"
| "splitlines_from cur (c # d # cs) =
     (if c = CR \<and> d = LF then rev cur # splitlines_from [] cs
      else if is_linebreak c then rev cur # splitlines_from [] (d # cs)
      else splitlines_from (c # cur) (d # cs))"

definition splitlines :: "pystr \<Rightarrow> pystr list" where
  "splitlines s = splitlines_from [] s"

text \<open>\<open>sep.join(xs)\<close>.\<close>

fun join :: "pystr \<Rightarrow> pystr list \<Rightarrow> pystr" where
  "join sep [] = []"
| "join sep [x] = x"
| "join sep (x # y # ys) = x @ sep @ join sep (y # ys)"

section \<open>The segmenter: \<open>split_text\<close>\<close>

text \<open>\<open>re.sub(r"[ \t]+", " ", s)\<close>: every maximal run of spaces and tabs becomes one space.\<close>

definition is_blank :: "codepoint \<Rightarrow> bool" where
  "is_blank c \<longleftrightarrow> c = 32 \<or> c = 9"

function collapse_blanks :: "pystr \<Rightarrow> pystr" where
  "collapse_blanks [] = []"
| "collapse_blanks (c # cs) =
     (if is_blank c then 32 # collapse_blanks (dropWhile is_blank cs)
      else c # collapse_blanks cs)"
  by pat_completeness auto
termination
  by (relation "measure length") (auto simp: length_dropWhile_le less_Suc_eq_le)

text \<open>
  \<open>re.split(r"(?<=[.!?])\s+", s)\<close>: a separator is a maximal run of whitespace that
  directly follows one of \<open>.\<close>, \<open>!\<close>, \<open>?\<close>. \<open>cur\<close> is the current piece, reversed.
\<close>

definition is_sentence_end :: "codepoint \<Rightarrow> bool" where
  "is_sentence_end c \<longleftrightarrow> c = 46 \<or> c = 33 \<or> c = 63"

function split_sentences_from :: "pystr \<Rightarrow> pystr \<Rightarrow> pystr list" where
  "split_sentences_from cur [] = [rev cur]"
| "split_sentences_from cur [c] = [rev (c # cur)]"
| "split_sentences_from cur (c # d # cs) =
     (if is_sentence_end c \<and> isspace d
      then rev (c # cur) # split_sentences_from [] (dropWhile isspace cs)
      else split_sentences_from (c # cur) (d # cs))"
  by pat_completeness auto
termination
  by (relation "measure (\<lambda>(cur, s). length s)")
     (auto simp: length_dropWhile_le less_Suc_eq_le le_SucI)

definition split_sentences :: "pystr \<Rightarrow> pystr list" where
  "split_sentences s = split_sentences_from [] s"

text \<open>
  \<open>split_text(text, mode)\<close>. The comprehension \<open>[p.strip() for p in parts if p.strip()]\<close>
  keeps the stripped pieces that are not empty.
\<close>

definition stripped_pieces :: "pystr list \<Rightarrow> pystr list" where
  "stripped_pieces parts = map strip (filter (\<lambda>p. strip p \<noteq> []) parts)"

definition cleaned_text :: "pystr \<Rightarrow> pystr" where
  "cleaned_text t = collapse_blanks (strip t)"

definition split_text :: "pystr \<Rightarrow> pystr \<Rightarrow> pystr list" where
  "split_text t mode =
     (let cleaned = cleaned_text t in
      if mode = ustr ''newlines'' \<or>
         (mode = ustr ''auto'' \<and> LF \<in> set cleaned \<and> 2 \<le> count_list cleaned LF)
      then stripped_pieces (splitlines cleaned)
      else stripped_pieces (split_sentences cleaned))"

section \<open>Python numbers\<close>

text \<open>The exceptions the code can raise (\<open>int()\<close> of a float, \<open>timedelta\<close>).\<close>

datatype py_error = OverflowError | ValueError

text \<open>
  A Python \<open>float\<close> is an IEEE 754 binary64 value: \<open>Finite m e\<close> is the number
  \<open>m * 2 ^ e\<close> (with \<open>\<bar>m\<bar> \<le> 2 ^ 53\<close> and \<open>- 1074 \<le> e\<close> for a value that exists), the other
  constructors are the infinities and not-a-number.
\<close>

datatype pyfloat = Finite int int | PosInf | NegInf | NaN

text \<open>The real number a finite float stands for.\<close>

definition dyadic :: "int \<Rightarrow> int \<Rightarrow> real" where
  "dyadic m e = (if 0 \<le> e then of_int m * 2 ^ nat e else of_int m / 2 ^ nat (- e))"

text \<open>\<open>int.bit_length()\<close>.\<close>

fun bit_length :: "nat \<Rightarrow> nat" where
  "bit_length n = (if n = 0 then 0 else Suc (bit_length (n div 2)))"

declare bit_length.simps [simp del]

text \<open>\<open>a / b\<close> rounded to the nearest integer, a tie to the even one.\<close>

definition round_half_even :: "nat \<Rightarrow> nat \<Rightarrow> nat" where
  "round_half_even a b =
     (let q = a div b; r = a mod b in
      if 2 * r < b then q else if b < 2 * r then q + 1 else if even q then q else q + 1)"

text \<open>\<open>2 ^ k \<le> a / b\<close>, and the largest such \<open>k\<close> (for positive \<open>a\<close>, \<open>b\<close>).\<close>

definition ratio_ge_pow2 :: "nat \<Rightarrow> nat \<Rightarrow> int \<Rightarrow> bool" where
  "ratio_ge_pow2 a b k = (if 0 \<le> k then b * 2 ^ nat k \<le> a else b \<le> a * 2 ^ nat (- k))"

definition floor_log2 :: "nat \<Rightarrow> nat \<Rightarrow> int" where
  "floor_log2 a b =
     (let k = int (bit_length a) - int (bit_length b) in
      if ratio_ge_pow2 a b k then k else k - 1)"

text \<open>
  The binary64 value nearest to the positive rational \<open>a / b\<close> (round to nearest, ties to
  even): 53 significant bits, or a multiple of \<open>2 ^ - 1074\<close> in the subnormal range, and
  infinity from \<open>2 ^ 1024\<close> on. Python's \<open>int / int\<close> and the float product are both
  correctly rounded, so both are this function of their exact result.
\<close>

definition nearest_double :: "nat \<Rightarrow> nat \<Rightarrow> pyfloat" where
  "nearest_double a b =
     (if a = 0 then Finite 0 0
      else
        let s = max (floor_log2 a b - 52) (- 1074);
            m = (if 0 \<le> s then round_half_even a (b * 2 ^ nat s)
                 else round_half_even (a * 2 ^ nat (- s)) b)
        in if 0 \<le> s \<and> 2 ^ 1024 \<le> m * 2 ^ nat s then PosInf else Finite (int m) s)"

fun float_neg :: "pyfloat \<Rightarrow> pyfloat" where
  "float_neg (Finite m e) = Finite (- m) e"
| "float_neg PosInf = NegInf"
| "float_neg NegInf = PosInf"
| "float_neg NaN = NaN"

definition round_to_double :: "int \<Rightarrow> nat \<Rightarrow> pyfloat" where
  "round_to_double a b =
     (if a < 0 then float_neg (nearest_double (nat (- a)) b) else nearest_double (nat a) b)"

text \<open>\<open>x * y\<close> on floats.\<close>

fun float_mul :: "pyfloat \<Rightarrow> pyfloat \<Rightarrow> pyfloat" where
  "float_mul (Finite m1 e1) (Finite m2 e2) =
     (let m = m1 * m2; e = e1 + e2 in
      if 0 \<le> e then round_to_double (m * 2 ^ nat e) 1 else round_to_double m (2 ^ nat (- e)))"
| "float_mul NaN y = NaN"
| "float_mul x NaN = NaN"
| "float_mul (Finite m e) PosInf = (if m = 0 then NaN else if 0 < m then PosInf else NegInf)"
| "float_mul (Finite m e) NegInf = (if m = 0 then NaN else if 0 < m then NegInf else PosInf)"
| "float_mul PosInf (Finite m e) = (if m = 0 then NaN else if 0 < m then PosInf else NegInf)"
| "float_mul NegInf (Finite m e) = (if m = 0 then NaN else if 0 < m then NegInf else PosInf)"
| "float_mul PosInf PosInf = PosInf"
| "float_mul PosInf NegInf = NegInf"
| "float_mul NegInf PosInf = NegInf"
| "float_mul NegInf NegInf = PosInf"

text \<open>\<open>x < y\<close> on floats: false when either side is not a number.\<close>

fun float_less :: "pyfloat \<Rightarrow> pyfloat \<Rightarrow> bool" where
  "float_less (Finite m1 e1) (Finite m2 e2) =
     (let k = min e1 e2 in m1 * 2 ^ nat (e1 - k) < m2 * 2 ^ nat (e2 - k))"
| "float_less NaN y = False"
| "float_less x NaN = False"
| "float_less x NegInf = False"
| "float_less PosInf y = False"
| "float_less NegInf y = True"
| "float_less x PosInf = True"

text \<open>
  \<open>int(x)\<close> of a float: the value truncated toward zero; \<open>ValueError\<close> for not-a-number,
  \<open>OverflowError\<close> for an infinity.
\<close>

fun float_to_int :: "pyfloat \<Rightarrow> py_error + int" where
  "float_to_int NaN = Inl ValueError"
| "float_to_int PosInf = Inl OverflowError"
| "float_to_int NegInf = Inl OverflowError"
| "float_to_int (Finite m e) =
     Inr (if 0 \<le> e then m * 2 ^ nat e
          else if 0 \<le> m then m div 2 ^ nat (- e)
          else - ((- m) div 2 ^ nat (- e)))"

text \<open>
  \<open>timedelta(milliseconds=ms)\<close> for an integer \<open>ms\<close>: the normalised days, seconds and
  microseconds; the constructor raises \<open>OverflowError\<close> when the days leave
  \<open>- 999999999 .. 999999999\<close>.
\<close>

record timedelta =
  td_days :: int
  td_seconds :: int
  td_microseconds :: int

definition timedelta_of_ms :: "int \<Rightarrow> py_error + timedelta" where
  "timedelta_of_ms ms =
     (let us = ms * 1000; d = us div 86400000000; r = us mod 86400000000 in
      if d < - 999999999 \<or> 999999999 < d then Inl OverflowError
      else Inr \<lparr>td_days = d, td_seconds = r div 1000000, td_microseconds = r mod 1000000\<rparr>)"

text \<open>
  \<open>t.total_seconds()\<close>: the microseconds of \<open>t\<close> divided by \<open>10 ** 6\<close>, a true division of
  integers and so a float.
\<close>

definition total_seconds :: "timedelta \<Rightarrow> pyfloat" where
  "total_seconds t =
     round_to_double ((td_days t * 86400 + td_seconds t) * 1000000 + td_microseconds t) 1000000"

text \<open>\<open>str(i)\<close> and the format \<open>{i:0w}\<close> of an integer (zero padding after the sign).\<close>

fun decimal :: "nat \<Rightarrow> pystr" where
  "decimal n = (if n < 10 then [48 + n] else decimal (n div 10) @ [48 + n mod 10])"

declare decimal.simps [simp del]

definition str_int :: "int \<Rightarrow> pystr" where
  "str_int i = (if i < 0 then 45 # decimal (nat (- i)) else decimal (nat i))"

definition format_zero :: "nat \<Rightarrow> int \<Rightarrow> pystr" where
  "format_zero w i =
     (let sgn = (if i < 0 then [45] else []); ds = decimal (nat \<bar>i\<bar>) in
      sgn @ replicate (w - length sgn - length ds) 48 @ ds)"

section \<open>The renderer: \<open>to_timestamp\<close> and \<open>generate_srt\<close>\<close>

definition to_timestamp :: "int \<Rightarrow> py_error + pystr" where
  "to_timestamp ms =
     (case timedelta_of_ms ms of
        Inl err \<Rightarrow> Inl err
      | Inr t \<Rightarrow>
          (case float_to_int (total_seconds t) of
             Inl err \<Rightarrow> Inl err
           | Inr total_secs \<Rightarrow>
               let hours = total_secs div 3600;
                   minutes = (total_secs mod 3600) div 60;
                   secs = total_secs mod 60;
                   millis = ms mod 1000
               in Inr (format_zero 2 hours @ ustr '':'' @ format_zero 2 minutes @ ustr '':'' @
                       format_zero 2 secs @ ustr '','' @ format_zero 3 millis)))"

text \<open>The line \<open>f"{to_timestamp(start)} --> {to_timestamp(end)}"\<close>.\<close>

definition timestamp_line :: "int \<Rightarrow> int \<Rightarrow> py_error + pystr" where
  "timestamp_line start fin =
     (case to_timestamp start of
        Inl err \<Rightarrow> Inl err
      | Inr a \<Rightarrow> (case to_timestamp fin of Inl err \<Rightarrow> Inl err | Inr b \<Rightarrow> Inr (a @ ustr '' --> '' @ b)))"

text \<open>
  The loop of \<open>generate_srt\<close>: \<open>i\<close> is the index \<open>enumerate\<close> gives, \<open>curr_ms\<close> the cursor and
  \<open>srt_lines\<close> the lines appended so far.
\<close>

fun srt_loop :: "nat \<Rightarrow> int \<Rightarrow> int \<Rightarrow> int \<Rightarrow> pystr list \<Rightarrow> pystr list \<Rightarrow> py_error + pystr list" where
  "srt_loop i curr_ms dur_ms gap_ms [] srt_lines = Inr srt_lines"
| "srt_loop i curr_ms dur_ms gap_ms (txt # chunks) srt_lines =
     (let start = curr_ms; fin = start + dur_ms in
      case timestamp_line start fin of
        Inl err \<Rightarrow> Inl err
      | Inr ts \<Rightarrow>
          srt_loop (i + 1) (fin + gap_ms) dur_ms gap_ms chunks
            (srt_lines @ [str_int (int i), ts, txt, []]))"

text \<open>\<open>max(500, int(duration_sec * 1000))\<close>.\<close>

definition cue_duration_ms :: "pyfloat \<Rightarrow> py_error + int" where
  "cue_duration_ms duration_sec =
     (case float_to_int (float_mul duration_sec (Finite 1000 0)) of
        Inl err \<Rightarrow> Inl err
      | Inr v \<Rightarrow> Inr (max 500 v))"

definition generate_srt :: "pystr list \<Rightarrow> pyfloat \<Rightarrow> int \<Rightarrow> int \<Rightarrow> py_error + pystr" where
  "generate_srt chunks duration_sec gap_ms start_ms =
     (let curr_ms = max 0 start_ms in
      case cue_duration_ms duration_sec of
        Inl err \<Rightarrow> Inl err
      | Inr dur_ms \<Rightarrow>
          let gap = max 0 gap_ms in
          (case srt_loop 1 curr_ms dur_ms gap chunks [] of
             Inl err \<Rightarrow> Inl err
           | Inr srt_lines \<Rightarrow> Inr (strip (join [LF] srt_lines) @ [LF])))"

section \<open>Reading the loop and the document\<close>

text \<open>
  The values the variables \<open>start\<close> and \<open>end\<close> of \<open>generate_srt\<close> take in the successive
  iterations of its loop, for \<open>n\<close> chunks: the time interval of each cue.
\<close>

fun cue_spans :: "int \<Rightarrow> int \<Rightarrow> int \<Rightarrow> nat \<Rightarrow> (int \<times> int) list" where
  "cue_spans curr_ms dur_ms gap_ms 0 = []"
| "cue_spans curr_ms dur_ms gap_ms (Suc n) =
     (curr_ms, curr_ms + dur_ms) # cue_spans (curr_ms + dur_ms + gap_ms) dur_ms gap_ms n"

text \<open>
  The three lines the loop appends for the cue with index \<open>i\<close>, interval \<open>iv\<close> and text
  \<open>txt\<close> (before the empty line that closes the block), and the blocks of a cue list.
\<close>

definition cue_block :: "nat \<Rightarrow> int \<times> int \<Rightarrow> pystr \<Rightarrow> pystr list" where
  "cue_block i iv txt =
     [str_int (int i),
      (case timestamp_line (fst iv) (snd iv) of Inr l \<Rightarrow> l | Inl err \<Rightarrow> []),
      txt]"

fun cue_blocks :: "nat \<Rightarrow> (int \<times> int) list \<Rightarrow> pystr list \<Rightarrow> pystr list list" where
  "cue_blocks i (iv # ivs) (txt # chunks) = cue_block i iv txt # cue_blocks (Suc i) ivs chunks"
| "cue_blocks i ivs chunks = []"

text \<open>The lines of the blocks, each block closed by an empty line: what \<open>srt_lines\<close> holds.\<close>

definition block_lines :: "pystr list list \<Rightarrow> pystr list" where
  "block_lines blocks = concat (map (\<lambda>b. b @ [[]]) blocks)"

text \<open>
  Reading a document back: \<open>text_lines\<close> is \<open>s.split("\n")\<close>, and the blocks are the maximal
  runs of non-empty lines, which is what splitting at blank lines leaves. \<open>cur\<close> is the
  current line or block, reversed.
\<close>

fun split_on :: "codepoint \<Rightarrow> pystr \<Rightarrow> pystr \<Rightarrow> pystr list" where
  "split_on c cur [] = [rev cur]"
| "split_on c cur (x # xs) =
     (if x = c then rev cur # split_on c [] xs else split_on c (x # cur) xs)"

definition text_lines :: "pystr \<Rightarrow> pystr list" where
  "text_lines s = split_on LF [] s"

fun blocks_from :: "pystr list \<Rightarrow> pystr list \<Rightarrow> pystr list list" where
  "blocks_from cur [] = (if cur = [] then [] else [rev cur])"
| "blocks_from cur (l # ls) =
     (if l \<noteq> [] then blocks_from (l # cur) ls
      else if cur = [] then blocks_from [] ls
      else rev cur # blocks_from [] ls)"

definition blank_line_blocks :: "pystr \<Rightarrow> pystr list list" where
  "blank_line_blocks s = blocks_from [] (text_lines s)"

text \<open>A cue as the data model has it: not empty, no whitespace at either end, no line break.\<close>

definition valid_cue :: "pystr \<Rightarrow> bool" where
  "valid_cue c \<longleftrightarrow>
     c \<noteq> [] \<and> \<not> isspace (hd c) \<and> \<not> isspace (last c) \<and> list_all (\<lambda>x. \<not> is_linebreak x) c"

text \<open>The code points of a timestamp: the digits, the comma and the colon.\<close>

definition timestamp_chars :: "codepoint set" where
  "timestamp_chars = {48..57} \<union> {44, 58}"

text \<open>The largest number of milliseconds a \<open>timedelta\<close> holds.\<close>

definition timedelta_max_ms :: int where
  "timedelta_max_ms = 86399999999999999"

text \<open>Truncation toward zero of a real number, the value \<open>int()\<close> gives a finite float.\<close>

definition truncate_real :: "real \<Rightarrow> int" where
  "truncate_real x = (if 0 \<le> x then \<lfloor>x\<rfloor> else \<lceil>x\<rceil>)"

text \<open>
  Reading a printed interval back from a timestamp line: \<open>read_decimal\<close> is the number a
  string of digits writes, \<open>read_timestamp\<close> the milliseconds of \<open>H:MM:SS,mmm\<close>, and
  \<open>read_timestamp_line\<close> the start and the end of \<open>start --> end\<close>.
\<close>

definition read_decimal :: "pystr \<Rightarrow> int" where
  "read_decimal s = int (foldl (\<lambda>v c. 10 * v + (c - 48)) 0 s)"

definition read_timestamp :: "pystr \<Rightarrow> int option" where
  "read_timestamp s =
     (case split_on 58 [] s of
        [h, m, r] \<Rightarrow>
          (case split_on 44 [] r of
             [sec, ms] \<Rightarrow>
               Some (((read_decimal h * 60 + read_decimal m) * 60 + read_decimal sec) * 1000 +
                     read_decimal ms)
           | _ \<Rightarrow> None)
      | _ \<Rightarrow> None)"

definition read_timestamp_line :: "pystr \<Rightarrow> (int \<times> int) option" where
  "read_timestamp_line l =
     (case split_on 32 [] l of
        [a, arrow, b] \<Rightarrow>
          (if arrow = ustr ''-->'' then
             (case read_timestamp a of
                None \<Rightarrow> None
              | Some x \<Rightarrow> (case read_timestamp b of None \<Rightarrow> None | Some y \<Rightarrow> Some (x, y)))
           else None)
      | _ \<Rightarrow> None)"

text \<open>
  The first number of milliseconds whose seconds \<open>to_timestamp\<close> does not print exactly
  (the float of \<open>total_seconds()\<close> is rounded up there).
\<close>

definition exact_limit_ms :: int where
  "exact_limit_ms = 17592186044416999"

section \<open>Properties of the segmenter\<close>

lemma strip_hd: "strip s \<noteq> [] \<Longrightarrow> \<not> isspace (hd (strip s))"
proof -
  assume a: "strip s \<noteq> []"
  let ?d = "dropWhile isspace s"
  have d: "?d \<noteq> []"
  proof
    assume "?d = []"
    then have "strip s = []" by (simp add: strip_def del: dropWhile_eq_Nil_conv)
    with a show False by simp
  qed
  then have h: "\<not> isspace (hd ?d)" by (rule hd_dropWhile)
  have "?d = rev (takeWhile isspace (rev ?d) @ dropWhile isspace (rev ?d))"
    by (simp only: takeWhile_dropWhile_id rev_rev_ident)
  then have "?d = strip s @ rev (takeWhile isspace (rev ?d))"
    by (simp only: rev_append strip_def)
  then have "hd ?d = hd (strip s)" using a by (metis hd_append2)
  then show ?thesis using h by simp
qed

lemma strip_last: "strip s \<noteq> [] \<Longrightarrow> \<not> isspace (last (strip s))"
  unfolding strip_def
  by (metis hd_dropWhile last_rev rev_is_Nil_conv)

lemma count_dropWhile_blank: "\<not> is_blank x \<Longrightarrow> count_list (dropWhile is_blank cs) x = count_list cs x"
  by (induction cs) auto

lemma count_collapse_blanks: "\<not> is_blank x \<Longrightarrow> count_list (collapse_blanks s) x = count_list s x"
  by (induction s rule: collapse_blanks.induct) (auto simp: count_dropWhile_blank is_blank_def)

lemma LF_not_blank: "\<not> is_blank LF"
  by (simp add: is_blank_def LF_def)

lemma ustr_modes: "ustr ''sentences'' \<noteq> ustr ''newlines''" "ustr ''sentences'' \<noteq> ustr ''auto''"
  "ustr ''auto'' \<noteq> ustr ''newlines''"
  by (simp_all add: ustr_def)

lemma stripped_pieces_trimmed:
  "p \<in> set (stripped_pieces parts) \<Longrightarrow> p \<noteq> [] \<and> \<not> isspace (hd p) \<and> \<not> isspace (last p)"
  by (auto simp: stripped_pieces_def strip_hd strip_last)

text \<open>The definitions unfolded to run the segmenter on a literal.\<close>

lemmas segment_eval = split_text_def cleaned_text_def strip_def ustr_def isspace_def is_blank_def LF_def CR_def
     stripped_pieces_def split_sentences_def is_sentence_end_def splitlines_def is_linebreak_def

text \<open>
  Claim C6. For every input text and every split mode, every string in the sequence
  returned by \<open>split_text\<close> is non-empty and neither starts nor ends with a whitespace
  character: each piece is stripped and the empty ones are dropped.
\<close>

theorem split_text_pieces_trimmed:
  "\<forall>p \<in> set (split_text t mode). p \<noteq> [] \<and> \<not> isspace (hd p) \<and> \<not> isspace (last p)"
proof
  fix p
  assume "p \<in> set (split_text t mode)"
  then have "p \<in> set (stripped_pieces (splitlines (cleaned_text t))) \<or>
             p \<in> set (stripped_pieces (split_sentences (cleaned_text t)))"
    by (simp add: split_text_def Let_def split: if_splits)
  then show "p \<noteq> [] \<and> \<not> isspace (hd p) \<and> \<not> isspace (last p)"
    using stripped_pieces_trimmed by blast
qed

theorem split_text_pieces_trimmed_witness:
  "split_text (ustr ''  Hi there.   Bye  '') (ustr ''auto'') = [ustr ''Hi there.'', ustr ''Bye''] \<and>
   ustr ''Bye'' \<noteq> [] \<and> \<not> isspace (hd (ustr ''Bye'')) \<and> \<not> isspace (last (ustr ''Bye''))"
  using split_text_pieces_trimmed [of "ustr ''  Hi there.   Bye  ''" "ustr ''auto''"]
  by (simp add: segment_eval)

text \<open>
  Claim C10. For every input text and every mode string other than \<open>newlines\<close> and
  \<open>auto\<close> (the empty string, a misspelling), \<open>split_text\<close> returns what it returns for
  \<open>sentences\<close>: the mode is not validated, and the sentence branch is taken.
\<close>

theorem split_text_unknown_mode:
  "mode \<noteq> ustr ''newlines'' \<Longrightarrow> mode \<noteq> ustr ''auto'' \<Longrightarrow>
   split_text t mode = split_text t (ustr ''sentences'') \<and>
   split_text t mode = stripped_pieces (split_sentences (cleaned_text t))"
  using ustr_modes by (simp add: split_text_def)

theorem split_text_unknown_mode_witness:
  "ustr '''' \<noteq> ustr ''newlines'' \<and> ustr '''' \<noteq> ustr ''auto'' \<and>
   split_text (ustr ''One\<newline>Two\<newline>Three. Four'') (ustr '''') =
     split_text (ustr ''One\<newline>Two\<newline>Three. Four'') (ustr ''sentences'') \<and>
   split_text (ustr ''One\<newline>Two\<newline>Three. Four'') (ustr '''') =
     [ustr ''One\<newline>Two\<newline>Three.'', ustr ''Four'']"
  using split_text_unknown_mode [of "ustr ''''" "ustr ''One\<newline>Two\<newline>Three. Four''"]
  by (simp add: segment_eval)

text \<open>
  Claim C3, as stated: a text with at least two line breaks is split in mode \<open>auto\<close> as in
  mode \<open>newlines\<close>. The text \<open>a. b\<close> followed by two line feeds has two line breaks, but
  they are stripped before they are counted, so \<open>auto\<close> splits it into sentences.
\<close>

theorem auto_newlines_counterexample:
  "2 \<le> count_list (ustr ''a. b\<newline>\<newline>'') LF \<and>
   split_text (ustr ''a. b\<newline>\<newline>'') (ustr ''auto'') = [ustr ''a.'', ustr ''b''] \<and>
   split_text (ustr ''a. b\<newline>\<newline>'') (ustr ''newlines'') = [ustr ''a. b''] \<and>
   split_text (ustr ''a. b\<newline>\<newline>'') (ustr ''auto'') \<noteq>
   split_text (ustr ''a. b\<newline>\<newline>'') (ustr ''newlines'')"
  by (simp add: segment_eval)

text \<open>
  Claim C3, amended. For every input text that still contains at least two line feed
  characters after its leading and trailing whitespace is stripped, \<open>split_text\<close> in mode
  \<open>auto\<close> returns the same sequence as in mode \<open>newlines\<close>.
\<close>

theorem auto_newlines_trimmed:
  "2 \<le> count_list (strip t) LF \<Longrightarrow>
   split_text t (ustr ''auto'') = split_text t (ustr ''newlines'')"
proof -
  assume a: "2 \<le> count_list (strip t) LF"
  have c: "count_list (cleaned_text t) LF = count_list (strip t) LF"
    by (simp add: cleaned_text_def count_collapse_blanks LF_not_blank)
  have "count_list (cleaned_text t) LF \<noteq> 0" using a c by simp
  then have "LF \<in> set (cleaned_text t)" by (simp add: count_list_0_iff)
  then show ?thesis using a c by (simp add: split_text_def)
qed

theorem auto_newlines_trimmed_witness:
  "2 \<le> count_list (strip (ustr '' one\<newline>two\<newline>three. four\<newline>'')) LF \<and>
   split_text (ustr '' one\<newline>two\<newline>three. four\<newline>'') (ustr ''auto'') =
   split_text (ustr '' one\<newline>two\<newline>three. four\<newline>'') (ustr ''newlines'') \<and>
   split_text (ustr '' one\<newline>two\<newline>three. four\<newline>'') (ustr ''auto'') =
     [ustr ''one'', ustr ''two'', ustr ''three. four'']"
  using auto_newlines_trimmed [of "ustr '' one\<newline>two\<newline>three. four\<newline>''"]
  by (simp add: segment_eval)

text \<open>The examples of the specification.\<close>

lemma split_text_example_sentences:
  "split_text (ustr ''Hello world. How are you?'') (ustr ''sentences'') =
     [ustr ''Hello world.'', ustr ''How are you?'']"
  by (simp add: segment_eval)

lemma split_text_example_auto:
  "split_text (ustr ''line one\<newline>line two\<newline>line three'') (ustr ''auto'') =
     [ustr ''line one'', ustr ''line two'', ustr ''line three'']"
  by (simp add: segment_eval)

section \<open>Properties of the float model\<close>

lemma bit_length_bounds:
  "0 < n \<Longrightarrow> 2 ^ (bit_length n - 1) \<le> n \<and> n < 2 ^ bit_length n"
proof (induction n rule: bit_length.induct)
  case (1 n)
  show ?case
  proof (cases "n div 2 = 0")
    case True
    then have n1: "n = 1" using "1.prems" by presburger
    have "bit_length 1 = 1" by (simp add: bit_length.simps)
    then show ?thesis using n1 by simp
  next
    case False
    then have h: "0 < n div 2" by simp
    have n0: "n \<noteq> 0" using "1.prems" by simp
    from "1.IH" [OF n0 h]
    have ih: "2 ^ (bit_length (n div 2) - 1) \<le> n div 2" "n div 2 < 2 ^ bit_length (n div 2)"
      by simp_all
    have bl: "bit_length n = Suc (bit_length (n div 2))"
      using n0 by (subst bit_length.simps) simp
    have pos: "0 < bit_length (n div 2)"
      using h by (subst bit_length.simps) simp
    then have "(2::nat) ^ bit_length (n div 2) = 2 * 2 ^ (bit_length (n div 2) - 1)"
      by (cases "bit_length (n div 2)") simp_all
    then have lo: "2 ^ bit_length (n div 2) \<le> n" using ih(1) by presburger
    have hi: "n < 2 * 2 ^ bit_length (n div 2)" using ih(2) by presburger
    show ?thesis using lo hi bl by simp
  qed
qed

lemma floor_log2_less:
  assumes "0 < a" "0 < b" "a < 2 ^ k * b"
  shows "floor_log2 a b < int k"
proof -
  let ?d = "int (bit_length a) - int (bit_length b)"
  show ?thesis
  proof (cases "ratio_ge_pow2 a b ?d")
    case True
    then have fl: "floor_log2 a b = ?d" by (simp add: floor_log2_def)
    show ?thesis
    proof (cases "0 \<le> ?d")
      case True
      with \<open>ratio_ge_pow2 a b ?d\<close> have "b * 2 ^ nat ?d \<le> a" by (simp add: ratio_ge_pow2_def)
      with assms(3) have "b * 2 ^ nat ?d < 2 ^ k * b" by linarith
      then have "b * 2 ^ nat ?d < b * 2 ^ k" by (simp only: mult.commute)
      then have "(2::nat) ^ nat ?d < 2 ^ k" by (rule mult_less_cancel1 [THEN iffD1, THEN conjunct2])
      then have "nat ?d < k" by simp
      then show ?thesis using fl True by linarith
    next
      case False
      then show ?thesis using fl by linarith
    qed
  next
    case False
    then have fl: "floor_log2 a b = ?d - 1" by (simp add: floor_log2_def)
    have "2 ^ (bit_length a - 1) \<le> a" using bit_length_bounds [OF assms(1)] by simp
    also have "a < 2 ^ k * b" by (rule assms(3))
    also have "2 ^ k * b < 2 ^ k * 2 ^ bit_length b"
      using bit_length_bounds [OF assms(2)] by simp
    finally have "(2::nat) ^ (bit_length a - 1) < 2 ^ (k + bit_length b)"
      by (simp add: power_add)
    then have "bit_length a - 1 < k + bit_length b" by simp
    then show ?thesis using fl by linarith
  qed
qed

lemma round_half_even_bounds:
  assumes "0 < b"
  shows "2 * (b * round_half_even a b) \<le> 2 * a + b" and "2 * a \<le> 2 * (b * round_half_even a b) + b"
proof -
  define q where "q = a div b"
  define r where "r = a mod b"
  have a: "a = b * q + r" by (simp add: q_def r_def)
  have r: "r < b" using assms by (simp add: r_def)
  have m: "round_half_even a b = q \<and> 2 * r \<le> b \<or> round_half_even a b = q + 1 \<and> b \<le> 2 * r"
    by (auto simp: round_half_even_def Let_def q_def r_def)
  show "2 * (b * round_half_even a b) \<le> 2 * a + b"
    using m a r by (auto simp: algebra_simps)
  show "2 * a \<le> 2 * (b * round_half_even a b) + b"
    using m a r by (auto simp: algebra_simps)
qed

lemma round_scaled_div:
  assumes b: "0 < b" and c: "b < 2 * 2 ^ t * (b - a mod b)"
  shows "round_half_even (a * 2 ^ t) b div 2 ^ t = a div b"
proof -
  define T :: nat where "T = 2 ^ t"
  define m where "m = round_half_even (a * T) b"
  define N where "N = a div b"
  define r where "r = a mod b"
  have Tpos: "0 < T" by (simp add: T_def)
  have a: "a = b * N + r" by (simp add: N_def r_def)
  have r: "r < b" using b by (simp add: r_def)
  have aT: "a * T = b * (N * T) + r * T" by (simp add: a algebra_simps)
  from round_half_even_bounds [OF b, of "a * T"]
  have up: "2 * (b * m) \<le> 2 * (a * T) + b" and lo: "2 * (a * T) \<le> 2 * (b * m) + b"
    by (simp_all add: m_def)
  have c': "b + 2 * (r * T) < 2 * (b * T)"
  proof -
    have "b < 2 * (T * (b - r))" using c by (simp add: T_def r_def algebra_simps)
    also have "T * (b - r) = b * T - r * T" by (simp add: algebra_simps diff_mult_distrib2)
    finally have "b < 2 * (b * T - r * T)" .
    then show ?thesis by linarith
  qed
  have ge: "N * T \<le> m"
  proof (rule ccontr)
    assume "\<not> N * T \<le> m"
    then have "m + 1 \<le> N * T" by simp
    then have "b * (m + 1) \<le> b * (N * T)" by (rule mult_le_mono2)
    then have "b * m + b \<le> b * (N * T)" by (simp add: algebra_simps)
    then show False using lo aT b by linarith
  qed
  have lt: "m < (N + 1) * T"
  proof (rule ccontr)
    assume "\<not> m < (N + 1) * T"
    then have "(N + 1) * T \<le> m" by simp
    then have "b * ((N + 1) * T) \<le> b * m" by (rule mult_le_mono2)
    then have "b * (N * T) + b * T \<le> b * m" by (simp add: algebra_simps)
    then show False using up aT c' by linarith
  qed
  have "m div T = N"
    by (rule div_nat_eqI) (use ge lt in \<open>simp_all add: algebra_simps\<close>)
  then show ?thesis by (simp add: m_def T_def N_def)
qed

lemma round_scaled_le:
  assumes b: "0 < b" and c: "a \<le> c * b"
  shows "round_half_even (a * 2 ^ t) b div 2 ^ t \<le> c"
proof -
  define T :: nat where "T = 2 ^ t"
  define m where "m = round_half_even (a * T) b"
  have Tpos: "0 < T" by (simp add: T_def)
  from round_half_even_bounds [OF b, of "a * T"]
  have up: "2 * (b * m) \<le> 2 * (a * T) + b" by (simp add: m_def)
  have "a * T \<le> (c * b) * T" using c by (rule mult_le_mono1)
  then have aT: "a * T \<le> b * (c * T)" by (simp add: algebra_simps)
  have le: "m \<le> c * T"
  proof (rule ccontr)
    assume "\<not> m \<le> c * T"
    then have "c * T + 1 \<le> m" by simp
    then have "b * (c * T + 1) \<le> b * m" by (rule mult_le_mono2)
    then have "b * (c * T) + b \<le> b * m" by (simp add: algebra_simps)
    then show False using up aT b by linarith
  qed
  have "m div T \<le> c * T div T" using le by (rule div_le_mono)
  then show ?thesis using Tpos by (simp add: m_def T_def)
qed

lemma nearest_double_scaled:
  assumes "0 < a" "0 < b" "a < 2 ^ k * b" "k \<le> 52"
  shows "\<exists>t. 53 - k \<le> t \<and> 0 < t \<and>
    nearest_double a b = Finite (int (round_half_even (a * 2 ^ t) b)) (- int t)"
proof -
  define s where "s = max (floor_log2 a b - 52) (- 1074)"
  have E: "floor_log2 a b < int k" using assms(1-3) by (rule floor_log2_less)
  have s_neg: "s < 0" using E assms(4) by (simp add: s_def)
  have s_le: "s \<le> int k - 53" using E assms(4) by (simp add: s_def)
  have "nearest_double a b = Finite (int (round_half_even (a * 2 ^ nat (- s)) b)) s"
    using assms(1) s_neg by (simp add: nearest_double_def Let_def s_def [symmetric])
  moreover have "53 - k \<le> nat (- s)" "0 < nat (- s)" "s = - int (nat (- s))"
    using s_neg s_le by linarith+
  ultimately show ?thesis by metis
qed

lemma nearest_double_trunc:
  assumes b: "0 < b" and lt: "a < 2 ^ k * b" and k: "k \<le> 52"
    and c: "b < 2 * 2 ^ (53 - k) * (b - a mod b)"
  shows "float_to_int (nearest_double a b) = Inr (int (a div b))"
proof (cases "a = 0")
  case True
  then show ?thesis by (simp add: nearest_double_def)
next
  case False
  then have "0 < a" by simp
  from nearest_double_scaled [OF this b lt k] obtain t where
    t: "53 - k \<le> t" "0 < t" and
    nd: "nearest_double a b = Finite (int (round_half_even (a * 2 ^ t) b)) (- int t)"
    by blast
  have "(2::nat) ^ (53 - k) \<le> 2 ^ t" using t(1) by simp
  then have "2 * 2 ^ (53 - k) * (b - a mod b) \<le> 2 * 2 ^ t * (b - a mod b)"
    by (intro mult_le_mono) simp_all
  with c have "b < 2 * 2 ^ t * (b - a mod b)" by linarith
  from round_scaled_div [OF b this]
  have "round_half_even (a * 2 ^ t) b div 2 ^ t = a div b" .
  moreover have "int (round_half_even (a * 2 ^ t) b div 2 ^ t) =
      int (round_half_even (a * 2 ^ t) b) div int (2 ^ t)" by (rule zdiv_int)
  ultimately have "int (round_half_even (a * 2 ^ t) b) div 2 ^ t = int (a div b)"
    by simp
  then show ?thesis using nd t(2) by simp
qed

lemma nearest_double_le:
  assumes b: "0 < b" and lt: "a < 2 ^ 52 * b" and c: "a \<le> c * b"
  shows "\<exists>v. float_to_int (nearest_double a b) = Inr v \<and> 0 \<le> v \<and> v \<le> int c"
proof (cases "a = 0")
  case True
  then show ?thesis by (simp add: nearest_double_def)
next
  case False
  then have "0 < a" by simp
  from nearest_double_scaled [OF this b lt] obtain t where
    t: "0 < t" and
    nd: "nearest_double a b = Finite (int (round_half_even (a * 2 ^ t) b)) (- int t)"
    by blast
  from round_scaled_le [OF b c]
  have "round_half_even (a * 2 ^ t) b div 2 ^ t \<le> c" .
  then have "int (round_half_even (a * 2 ^ t) b div 2 ^ t) \<le> int c" by (simp only: of_nat_le_iff)
  moreover have "int (round_half_even (a * 2 ^ t) b div 2 ^ t) =
      int (round_half_even (a * 2 ^ t) b) div int (2 ^ t)" by (rule zdiv_int)
  ultimately have "int (round_half_even (a * 2 ^ t) b) div 2 ^ t \<le> int c"
    by simp
  moreover have "0 \<le> int (round_half_even (a * 2 ^ t) b) div 2 ^ t"
    by (simp add: pos_imp_zdiv_nonneg_iff)
  ultimately show ?thesis using nd t by simp
qed

lemma nearest_double_not_nan: "nearest_double a b \<noteq> NaN"
  by (simp add: nearest_double_def Let_def)

lemma round_to_double_not_nan: "round_to_double a b \<noteq> NaN"
  using nearest_double_not_nan [of "nat (- a)" b] nearest_double_not_nan [of "nat a" b]
  by (cases "nearest_double (nat (- a)) b") (simp_all add: round_to_double_def)

lemma float_to_int_error: "float_to_int x = Inl err \<Longrightarrow> x \<noteq> NaN \<Longrightarrow> err = OverflowError"
  by (cases x) simp_all

lemma timedelta_microseconds:
  "timedelta_of_ms ms = Inr t \<Longrightarrow>
   (td_days t * 86400 + td_seconds t) * 1000000 + td_microseconds t = ms * 1000"
proof -
  assume a: "timedelta_of_ms ms = Inr t"
  define us where "us = ms * 1000"
  define r where "r = us mod 86400000000"
  have t: "t = \<lparr>td_days = us div 86400000000, td_seconds = r div 1000000,
                 td_microseconds = r mod 1000000\<rparr>"
    using a by (simp add: timedelta_of_ms_def Let_def us_def r_def split: if_splits)
  have "(us div 86400000000 * 86400 + r div 1000000) * 1000000 + r mod 1000000
        = us div 86400000000 * 86400000000 + (r div 1000000 * 1000000 + r mod 1000000)"
    by (simp add: algebra_simps)
  also have "\<dots> = us div 86400000000 * 86400000000 + r" by simp
  also have "\<dots> = us" by (simp add: r_def)
  finally show ?thesis by (simp add: t us_def)
qed

lemma timedelta_range:
  "timedelta_of_ms ms = (if ms < - 86399999913600000 \<or> 86399999999999999 < ms
     then Inl OverflowError
     else Inr \<lparr>td_days = ms * 1000 div 86400000000,
               td_seconds = ms * 1000 mod 86400000000 div 1000000,
               td_microseconds = ms * 1000 mod 86400000000 mod 1000000\<rparr>)"
proof -
  define q where "q = ms div 86400000"
  define r where "r = ms mod 86400000"
  have ms: "ms = 86400000 * q + r" "0 \<le> r" "r < 86400000"
    by (simp_all add: q_def r_def)
  have "(1000 * ms) div (1000 * 86400000) = ms div 86400000"
    by (rule div_mult_mult1) simp
  then have d: "ms * 1000 div 86400000000 = q" by (simp add: mult.commute q_def)
  have "q < - 999999999 \<longleftrightarrow> ms < - 86399999913600000" using ms by linarith
  moreover have "999999999 < q \<longleftrightarrow> 86399999999999999 < ms" using ms by linarith
  ultimately show ?thesis by (simp add: timedelta_of_ms_def Let_def d)
qed

section \<open>Properties of \<open>to_timestamp\<close>\<close>

lemma decimal_digits: "set (decimal n) \<subseteq> {48..57}"
proof (induction n rule: decimal.induct)
  case (1 n)
  show ?case
  proof (cases "n < 10")
    case True
    then show ?thesis by (subst decimal.simps) simp
  next
    case False
    have "n mod 10 < 10" by simp
    then have "48 + n mod 10 \<in> {48..57}" by (simp del: mod_less_divisor)
    then show ?thesis using "1.IH" [OF False] False by (subst decimal.simps) simp
  qed
qed

lemma decimal_nonempty: "decimal n \<noteq> []"
  by (subst decimal.simps) simp

text \<open>The digits written by \<open>decimal\<close> read back as the number.\<close>

lemma decimal_value: "foldl (\<lambda>v c. 10 * v + (c - 48)) 0 (decimal n) = n"
proof (induction n rule: decimal.induct)
  case (1 n)
  show ?case
  proof (cases "n < 10")
    case True
    then show ?thesis by (subst decimal.simps) simp
  next
    case False
    then show ?thesis using "1.IH" [OF False] by (subst decimal.simps) simp
  qed
qed

lemma format_zero_nonneg:
  "0 \<le> i \<Longrightarrow> format_zero w i = replicate (w - length (decimal (nat i))) 48 @ decimal (nat i)"
  by (simp add: format_zero_def Let_def)

lemma format_zero_length: "w \<le> length (format_zero w i)"
  by (simp add: format_zero_def Let_def)

lemma format_zero_digits: "0 \<le> i \<Longrightarrow> set (format_zero w i) \<subseteq> {48..57}"
  using decimal_digits [of "nat i"] by (auto simp: format_zero_nonneg)

lemma format_zero_nonempty: "format_zero w i \<noteq> []"
  by (simp add: format_zero_def Let_def decimal_nonempty)

lemma hms_of_seconds:
  fixes x :: int
  shows "(x mod 3600) div 60 = (x div 60) mod 60"
proof -
  have "x mod (60 * 60) = 60 * (x div 60 mod 60) + x mod 60"
    by (rule zmod_zmult2_eq) simp
  then have "x mod 3600 div 60 = (60 * (x div 60 mod 60) + x mod 60) div 60" by simp
  also have "\<dots> = x div 60 mod 60" by simp
  finally show ?thesis .
qed

lemma total_seconds_exact:
  assumes "0 \<le> ms" "ms < 17592186044416999" "timedelta_of_ms ms = Inr t"
  shows "float_to_int (total_seconds t) = Inr (ms div 1000)"
proof -
  define n where "n = nat ms"
  have ms: "ms = int n" using assms(1) by (simp add: n_def)
  have ts: "total_seconds t = nearest_double (n * 1000) 1000000"
    using timedelta_microseconds [OF assms(3)] assms(1)
    by (simp add: total_seconds_def round_to_double_def ms nat_mult_distrib)
  have md: "n * 1000 mod 1000000 = (n mod 1000) * 1000"
    using mult_mod_left [of n 1000 1000] by simp
  have dv: "n * 1000 div 1000000 = n div 1000"
    using div_mult_mult2 [of 1000 n 1000] by simp
  have "float_to_int (nearest_double (n * 1000) 1000000) = Inr (int (n * 1000 div 1000000))"
  proof (cases "n < 17592186044416000")
    case True
    then have lt: "n * 1000 < 2 ^ 44 * 1000000" by simp
    have "n mod 1000 < 1000" by simp
    then have c: "(1000000::nat) < 2 * 2 ^ (53 - 44) * (1000000 - n * 1000 mod 1000000)"
      unfolding md by simp
    show ?thesis by (rule nearest_double_trunc [OF _ lt _ c]) simp_all
  next
    case False
    then have ge: "17592186044416000 \<le> n" by simp
    have n: "n < 17592186044416999" using assms(2) ms by simp
    then have lt: "n * 1000 < 2 ^ 45 * 1000000" by simp
    have "17592186044416000 div 1000 \<le> n div 1000" using ge by (rule div_le_mono)
    then have q: "17592186044416 \<le> n div 1000" by simp
    have "n = 1000 * (n div 1000) + n mod 1000" by simp
    then have "n mod 1000 \<le> 998" using q n by linarith
    then have c: "(1000000::nat) < 2 * 2 ^ (53 - 45) * (1000000 - n * 1000 mod 1000000)"
      unfolding md by simp
    show ?thesis by (rule nearest_double_trunc [OF _ lt _ c]) simp_all
  qed
  then show ?thesis by (simp add: ts ms dv zdiv_int)
qed

lemma to_timestamp_overflow:
  "timedelta_max_ms < ms \<Longrightarrow> to_timestamp ms = Inl OverflowError"
  by (simp add: to_timestamp_def timedelta_range timedelta_max_ms_def)

lemma to_timestamp_error: "to_timestamp ms = Inl err \<Longrightarrow> err = OverflowError"
proof -
  assume a: "to_timestamp ms = Inl err"
  show ?thesis
  proof (cases "timedelta_of_ms ms")
    case (Inl e)
    then have "e = OverflowError" by (simp add: timedelta_range split: if_splits)
    then show ?thesis using a Inl by (simp add: to_timestamp_def)
  next
    case (Inr t)
    then have "float_to_int (total_seconds t) = Inl err"
      using a by (simp add: to_timestamp_def Let_def split: sum.splits)
    then show ?thesis
      using float_to_int_error round_to_double_not_nan by (simp add: total_seconds_def)
  qed
qed

lemma to_timestamp_in_range:
  assumes "0 \<le> ms" "ms \<le> timedelta_max_ms"
  shows "\<exists>s. to_timestamp ms = Inr s \<and> s \<noteq> [] \<and> set s \<subseteq> timestamp_chars"
proof -
  define n where "n = nat ms"
  have ms: "ms = int n" using assms(1) by (simp add: n_def)
  obtain t where t: "timedelta_of_ms ms = Inr t"
    using assms by (simp add: timedelta_range timedelta_max_ms_def)
  have ts: "total_seconds t = nearest_double (n * 1000) 1000000"
    using timedelta_microseconds [OF t] assms(1)
    by (simp add: total_seconds_def round_to_double_def ms nat_mult_distrib)
  have n: "n \<le> 86399999999999999" using assms(2) ms by (simp add: timedelta_max_ms_def)
  then have lt: "n * 1000 < 2 ^ 52 * 1000000" by simp
  have le: "n * 1000 \<le> 86400000000000 * 1000000" using n by simp
  from nearest_double_le [OF _ lt le] obtain v where
    v: "float_to_int (nearest_double (n * 1000) 1000000) = Inr v" "0 \<le> v"
    by auto
  define s where "s = format_zero 2 (v div 3600) @ ustr '':'' @ format_zero 2 (v mod 3600 div 60) @
      ustr '':'' @ format_zero 2 (v mod 60) @ ustr '','' @ format_zero 3 (ms mod 1000)"
  have r: "to_timestamp ms = Inr s"
    by (simp add: to_timestamp_def t ts v(1) s_def)
  have h: "0 \<le> v div 3600" "0 \<le> v mod 3600 div 60" "0 \<le> v mod 60" "0 \<le> ms mod 1000"
    using v(2) by (simp_all add: pos_imp_zdiv_nonneg_iff)
  have "{48..57::nat} \<subseteq> timestamp_chars" by (auto simp: timestamp_chars_def)
  then have d: "\<And>w i. 0 \<le> i \<Longrightarrow> set (format_zero w i) \<subseteq> timestamp_chars"
    using format_zero_digits by blast
  have "set s \<subseteq> timestamp_chars"
    using d [OF h(1)] d [OF h(2)] d [OF h(3)] d [OF h(4)]
    by (simp add: s_def) (simp add: ustr_def timestamp_chars_def)
  moreover have "s \<noteq> []" by (simp add: s_def format_zero_nonempty)
  ultimately show ?thesis using r by blast
qed

lemma replicate_small:
  "replicate (Suc 0) x = [x]" "replicate 2 x = [x, x]" "replicate 3 x = [x, x, x]"
  by (simp_all add: numeral_2_eq_2 numeral_3_eq_3)

lemmas timestamp_eval = format_zero_def decimal.simps ustr_def replicate_small

lemmas float_eval = total_seconds_def round_to_double_def nearest_double_def floor_log2_def
  ratio_ge_pow2_def bit_length.simps round_half_even_def Let_def

lemma to_timestamp_value:
  assumes "0 \<le> ms" "ms < 17592186044416999"
  shows "to_timestamp ms =
      Inr (format_zero 2 (ms div 3600000) @ ustr '':'' @
           format_zero 2 (ms div 60000 mod 60) @ ustr '':'' @
           format_zero 2 (ms div 1000 mod 60) @ ustr '','' @
           format_zero 3 (ms mod 1000))"
proof -
  obtain t where t: "timedelta_of_ms ms = Inr t"
    using assms by (simp add: timedelta_range)
  have v: "float_to_int (total_seconds t) = Inr (ms div 1000)"
    using assms t by (rule total_seconds_exact)
  have a: "ms div 1000 div 3600 = ms div 3600000"
    using zdiv_zmult2_eq [of 3600 ms 1000] by simp
  have b: "ms div 1000 div 60 = ms div 60000"
    using zdiv_zmult2_eq [of 60 ms 1000] by simp
  show ?thesis
    by (simp add: to_timestamp_def t v hms_of_seconds a b)
qed

text \<open>
  Claim C5, as stated: every non-negative \<open>ms\<close> is rendered with the hours \<open>ms div 3600000\<close>
  (growing without upper bound), the minutes \<open>ms div 60000 mod 60\<close> and the seconds
  \<open>ms div 1000 mod 60\<close>. Two inputs where it fails: from \<open>86400000000000000\<close> on, the
  \<open>timedelta\<close> of the code does not exist and \<open>to_timestamp\<close> raises; and at
  \<open>17592186044416999\<close> the float of \<open>total_seconds()\<close> is rounded up to the next second, so
  the seconds are written as 17 where \<open>ms div 1000 mod 60\<close> is 16.
\<close>

theorem to_timestamp_unbounded_counterexample:
  "to_timestamp 86400000000000000 = Inl OverflowError \<and>
   to_timestamp 17592186044416999 = Inr (ustr ''4886718345:40:17,999'') \<and>
   (17592186044416999::int) div 3600000 = 4886718345 \<and>
   (17592186044416999::int) div 60000 mod 60 = 40 \<and>
   (17592186044416999::int) div 1000 mod 60 = 16"
  by (simp add: to_timestamp_def timedelta_range float_eval timestamp_eval)

text \<open>
  Claim C5, amended. For every integer \<open>ms\<close> with \<open>0 \<le> ms < 17592186044416999\<close>,
  \<open>to_timestamp\<close> renders \<open>ms\<close> as \<open>HH:MM:SS,mmm\<close> with the hours \<open>ms div 3600000\<close>, the minutes
  \<open>ms div 60000 mod 60\<close> and the seconds \<open>ms div 1000 mod 60\<close>, each padded with zeros to at
  least 2 digits (the hours take more digits when they need them), and \<open>ms mod 1000\<close>
  padded with zeros to 3 digits; 3725007 is rendered as \<open>01:02:05,007\<close>. For every \<open>ms\<close>
  above \<open>86399999999999999\<close> it raises \<open>OverflowError\<close>.
\<close>

theorem to_timestamp_format:
  "(0 \<le> ms \<and> ms < 17592186044416999 \<longrightarrow>
    to_timestamp ms =
      Inr (format_zero 2 (ms div 3600000) @ ustr '':'' @
           format_zero 2 (ms div 60000 mod 60) @ ustr '':'' @
           format_zero 2 (ms div 1000 mod 60) @ ustr '','' @
           format_zero 3 (ms mod 1000))) \<and>
   (timedelta_max_ms < ms \<longrightarrow> to_timestamp ms = Inl OverflowError) \<and>
   to_timestamp 3725007 = Inr (ustr ''01:02:05,007'')"
proof -
  have "to_timestamp 3725007 = Inr (ustr ''01:02:05,007'')"
    by (simp add: to_timestamp_value timestamp_eval)
  then show ?thesis using to_timestamp_value to_timestamp_overflow by blast
qed

theorem to_timestamp_format_witness:
  "(0::int) \<le> 360000999 \<and> (360000999::int) < 17592186044416999 \<and>
   to_timestamp 360000999 = Inr (ustr ''100:00:00,999'') \<and>
   timedelta_max_ms < 86400000000000000 \<and>
   to_timestamp 86400000000000000 = Inl OverflowError"
  using to_timestamp_format [of 360000999] to_timestamp_format [of 86400000000000000]
  by (simp add: timestamp_eval timedelta_max_ms_def)

section \<open>Properties of the loop of \<open>generate_srt\<close>\<close>

lemma LF_not_timestamp_char: "LF \<notin> timestamp_chars"
  by (simp add: timestamp_chars_def LF_def)

lemma timestamp_line_ok:
  assumes "0 \<le> s" "s \<le> timedelta_max_ms" "0 \<le> e" "e \<le> timedelta_max_ms"
  shows "\<exists>l. timestamp_line s e = Inr l \<and> l \<noteq> [] \<and> LF \<notin> set l"
proof -
  from to_timestamp_in_range [OF assms(1,2)] obtain a where
    a: "to_timestamp s = Inr a" "a \<noteq> []" "set a \<subseteq> timestamp_chars" by blast
  from to_timestamp_in_range [OF assms(3,4)] obtain b where
    b: "to_timestamp e = Inr b" "b \<noteq> []" "set b \<subseteq> timestamp_chars" by blast
  have "LF \<notin> set a" "LF \<notin> set b" using a(3) b(3) LF_not_timestamp_char by blast+
  moreover have "LF \<notin> set (ustr '' --> '')" by (simp add: ustr_def LF_def)
  ultimately have "LF \<notin> set (a @ ustr '' --> '' @ b)" by simp
  then show ?thesis using a(1,2) b(1) by (simp add: timestamp_line_def)
qed

lemma timestamp_line_error: "timestamp_line s e = Inl err \<Longrightarrow> err = OverflowError"
  using to_timestamp_error by (auto simp: timestamp_line_def split: sum.splits)

lemma timestamp_line_bound:
  assumes "timestamp_line s e = Inr l"
  shows "e \<le> timedelta_max_ms"
proof (rule ccontr)
  assume "\<not> e \<le> timedelta_max_ms"
  then have "to_timestamp e = Inl OverflowError" by (simp add: to_timestamp_overflow)
  then show False using assms by (simp add: timestamp_line_def split: sum.splits)
qed

lemma block_lines_Cons: "block_lines (b # bs) = b @ [] # block_lines bs"
  by (simp add: block_lines_def)

lemma block_lines_Nil: "block_lines [] = []"
  by (simp add: block_lines_def)

lemma srt_loop_lines:
  "srt_loop i c D g chunks acc = Inr ls \<Longrightarrow>
   ls = acc @ block_lines (cue_blocks i (cue_spans c D g (length chunks)) chunks) \<and>
   (\<forall>iv \<in> set (cue_spans c D g (length chunks)). snd iv \<le> timedelta_max_ms)"
proof (induction chunks arbitrary: i c acc)
  case Nil
  then show ?case by (simp add: block_lines_Nil)
next
  case (Cons tx chunks)
  from Cons.prems obtain l where
    l: "timestamp_line c (c + D) = Inr l" and
    r: "srt_loop (i + 1) (c + D + g) D g chunks (acc @ [str_int (int i), l, tx, []]) = Inr ls"
    by (auto simp: Let_def split: sum.splits)
  from Cons.IH [OF r] have
    ih: "ls = (acc @ [str_int (int i), l, tx, []]) @
           block_lines (cue_blocks (i + 1) (cue_spans (c + D + g) D g (length chunks)) chunks)"
        "\<forall>iv \<in> set (cue_spans (c + D + g) D g (length chunks)). snd iv \<le> timedelta_max_ms"
    by simp_all
  have "c + D \<le> timedelta_max_ms" using l by (rule timestamp_line_bound)
  then show ?case using ih l by (simp add: block_lines_Cons cue_block_def)
qed

lemma srt_loop_error: "srt_loop i c D g chunks acc = Inl err \<Longrightarrow> err = OverflowError"
proof (induction chunks arbitrary: i c acc)
  case Nil
  then show ?case by simp
next
  case (Cons tx chunks)
  show ?case
  proof (cases "timestamp_line c (c + D)")
    case (Inl e)
    then have "e = OverflowError" by (rule timestamp_line_error)
    then show ?thesis using Cons.prems Inl by (simp add: Let_def)
  next
    case (Inr l)
    then show ?thesis using Cons.prems Cons.IH by (simp add: Let_def)
  qed
qed

lemma srt_loop_ok:
  assumes "0 \<le> D" "0 \<le> g"
  shows "0 \<le> c \<Longrightarrow> \<forall>iv \<in> set (cue_spans c D g (length chunks)). snd iv \<le> timedelta_max_ms \<Longrightarrow>
    \<exists>ls. srt_loop i c D g chunks acc = Inr ls"
proof (induction chunks arbitrary: i c acc)
  case Nil
  then show ?case by simp
next
  case (Cons tx chunks)
  have e: "c + D \<le> timedelta_max_ms" using Cons.prems(2) by simp
  then have "c \<le> timedelta_max_ms" using assms(1) by linarith
  with Cons.prems(1) e assms(1) obtain l where l: "timestamp_line c (c + D) = Inr l"
    using timestamp_line_ok [of c "c + D"] by auto
  have "0 \<le> c + D + g" using Cons.prems(1) assms by simp
  moreover have "\<forall>iv \<in> set (cue_spans (c + D + g) D g (length chunks)). snd iv \<le> timedelta_max_ms"
    using Cons.prems(2) by simp
  ultimately obtain ls where
    "srt_loop (i + 1) (c + D + g) D g chunks (acc @ [str_int (int i), l, tx, []]) = Inr ls"
    using Cons.IH by blast
  then show ?case using l by (simp add: Let_def)
qed

lemma cue_spans_length: "length (cue_spans c D g n) = n"
  by (induction n arbitrary: c) simp_all

lemma cue_spans_nth:
  "k < n \<Longrightarrow> cue_spans c D g n ! k = (c + int k * (D + g), c + int k * (D + g) + D)"
proof (induction n arbitrary: c k)
  case 0
  then show ?case by simp
next
  case (Suc n)
  show ?case
  proof (cases k)
    case 0
    then show ?thesis by simp
  next
    case (Suc j)
    then have "j < n" using Suc.prems by simp
    from Suc.IH [OF this, of "c + D + g"] show ?thesis
      using Suc by (simp add: algebra_simps)
  qed
qed

lemma cue_spans_bounded:
  assumes "0 \<le> D" "0 \<le> g"
  shows "(\<forall>iv \<in> set (cue_spans c D g n). snd iv \<le> B) \<longleftrightarrow>
         (n = 0 \<or> c + int n * D + (int n - 1) * g \<le> B)"
proof (induction n arbitrary: c)
  case 0
  then show ?case by simp
next
  case (Suc n)
  show ?case
  proof (cases n)
    case 0
    then show ?thesis by simp
  next
    case (Suc m)
    have "0 \<le> int n * D" "0 \<le> (int n - 1) * g" using assms Suc by simp_all
    then have "c + D \<le> c + D + g + int n * D + (int n - 1) * g" using assms by linarith
    moreover have "c + D + g + int n * D + (int n - 1) * g = c + int (Suc n) * D + (int (Suc n) - 1) * g"
      by (simp add: algebra_simps)
    ultimately show ?thesis using Suc.IH [of "c + D + g"] Suc by auto
  qed
qed

section \<open>Properties of the cue duration\<close>

lemma float_to_int_truncate:
  "float_to_int (Finite m e) = Inr (truncate_real (dyadic m e))"
proof (cases "0 \<le> e")
  case True
  have "dyadic m e = of_int (m * 2 ^ nat e)" using True by (simp add: dyadic_def)
  then have "truncate_real (dyadic m e) = m * 2 ^ nat e"
    unfolding truncate_real_def by (simp only: floor_of_int ceiling_of_int if_cancel)
  then show ?thesis using True by simp
next
  case False
  define t where "t = nat (- e)"
  have d: "dyadic m e = real_of_int m / real_of_int (2 ^ t)"
    using False by (simp add: dyadic_def t_def)
  have fl: "\<lfloor>real_of_int k / real_of_int (2 ^ t)\<rfloor> = k div 2 ^ t" for k
    by (rule floor_divide_of_int_eq)
  show ?thesis
  proof (cases "0 \<le> m")
    case True
    then have "0 \<le> dyadic m e" unfolding d by simp
    then have "truncate_real (dyadic m e) = m div 2 ^ t"
      unfolding truncate_real_def d using fl by simp
    then show ?thesis using False True by (simp add: t_def)
  next
    case m: False
    then have "dyadic m e < 0" unfolding d by (simp add: divide_neg_pos)
    then have "truncate_real (dyadic m e) = \<lceil>dyadic m e\<rceil>"
      by (simp add: truncate_real_def)
    also have "\<dots> = - \<lfloor>real_of_int (- m) / real_of_int (2 ^ t)\<rfloor>"
      unfolding d ceiling_def by simp
    also have "\<dots> = - ((- m) div 2 ^ t)" by (simp only: fl)
    finally show ?thesis using False m by (simp add: t_def)
  qed
qed

lemma cue_duration_finite:
  "cue_duration_ms d = Inr D \<longleftrightarrow>
   (\<exists>m e. float_mul d (Finite 1000 0) = Finite m e \<and> D = max 500 (truncate_real (dyadic m e)))"
proof (cases "float_mul d (Finite 1000 0)")
  case (Finite m e)
  then show ?thesis
    by (auto simp: cue_duration_ms_def float_to_int_truncate simp del: float_to_int.simps)
qed (simp_all add: cue_duration_ms_def)

lemma cue_duration_floor: "cue_duration_ms d = Inr D \<Longrightarrow> 500 \<le> D"
  by (auto simp: cue_duration_ms_def split: sum.splits)

lemma cue_duration_half: "cue_duration_ms (Finite 1 (- 1)) = Inr 500"
  by (simp add: cue_duration_ms_def round_to_double_def nearest_double_def floor_log2_def
      ratio_ge_pow2_def bit_length.simps round_half_even_def Let_def)

lemma float_to_int_nonpos:
  assumes "k \<le> 0" "float_to_int (Finite k s) = Inr v"
  shows "v \<le> 0"
proof (cases "0 \<le> s")
  case True
  then have "v = k * 2 ^ nat s" using assms(2) by simp
  then show ?thesis using assms(1) by (simp add: mult_nonpos_nonneg)
next
  case False
  show ?thesis
  proof (cases "0 \<le> k")
    case True
    then have "k = 0" using assms(1) by simp
    then show ?thesis using assms(2) False by simp
  next
    case k: False
    then have "v = - ((- k) div 2 ^ nat (- s))" using assms(2) False by simp
    moreover have "0 \<le> (- k) div 2 ^ nat (- s)"
      using assms(1) by (simp add: pos_imp_zdiv_nonneg_iff)
    ultimately show ?thesis by simp
  qed
qed

lemma float_to_int_neg:
  "float_to_int (float_neg (nearest_double a b)) = Inr v \<Longrightarrow> v \<le> 0"
proof -
  assume a: "float_to_int (float_neg (nearest_double a b)) = Inr v"
  have "(\<exists>m s. nearest_double a b = Finite (int m) s) \<or> nearest_double a b = PosInf"
  proof (cases "a = 0")
    case True
    then have "nearest_double a b = Finite (int 0) 0" by (simp add: nearest_double_def)
    then show ?thesis by blast
  next
    case False
    then show ?thesis by (auto simp: nearest_double_def Let_def)
  qed
  then show ?thesis
  proof
    assume "\<exists>m s. nearest_double a b = Finite (int m) s"
    then obtain m s where "nearest_double a b = Finite (int m) s" by blast
    then have "float_to_int (Finite (- int m) s) = Inr v" using a by simp
    then show ?thesis by (rule float_to_int_nonpos [rotated]) simp
  next
    assume "nearest_double a b = PosInf"
    then show ?thesis using a by simp
  qed
qed

lemma cue_duration_below_half:
  assumes "float_less d (Finite 1 (- 1))" "cue_duration_ms d = Inr D"
  shows "D = 500"
proof (cases d)
  case (Finite m e)
  define P where "P = float_mul d (Finite 1000 0)"
  obtain v where v: "float_to_int P = Inr v" "D = max 500 v"
    using assms(2) by (auto simp: cue_duration_ms_def P_def split: sum.splits)
  have "v \<le> 500"
  proof (cases "0 < m")
    case False
    show ?thesis
    proof (cases "m = 0")
      case True
      then have "P = Finite 0 0"
        by (simp add: P_def Finite round_to_double_def nearest_double_def)
      then show ?thesis using v by simp
    next
      case m: False
      then have "m * 1000 < 0" "m * 1000 * 2 ^ nat e < 0" using False
        by (simp_all add: mult_neg_pos)
      then have "\<exists>a b. P = float_neg (nearest_double a b)"
        by (cases "0 \<le> e") (auto simp: P_def Finite round_to_double_def Let_def)
      then obtain a b where "P = float_neg (nearest_double a b)" by blast
      then show ?thesis using v(1) float_to_int_neg by fastforce
    qed
  next
    case True
    have e: "e < 0"
    proof (rule ccontr)
      assume "\<not> e < 0"
      then have "min e (- 1) = - 1" "0 \<le> e" by simp_all
      then have "m * 2 ^ nat (e + 1) < 1" using assms(1) by (simp add: Finite Let_def)
      moreover have "1 * 1 \<le> m * 2 ^ nat (e + 1)"
        using True by (intro mult_mono) simp_all
      ultimately show False by simp
    qed
    define t where "t = nat (- e)"
    have t: "0 < t" "e = - int t" using e by (simp_all add: t_def)
    have "min e (- 1) = e" using e by simp
    then have "m < 2 ^ nat (- 1 - e)" using assms(1) by (simp add: Finite Let_def)
    moreover have "nat (- 1 - e) = t - 1" using t by linarith
    ultimately have "m < 2 ^ (t - 1)" by simp
    moreover have "(2::int) ^ t = 2 * 2 ^ (t - 1)" using t(1) by (cases t) simp_all
    ultimately have "m * 1000 \<le> 500 * 2 ^ t" by simp
    then have "nat (m * 1000) \<le> nat (500 * 2 ^ t)" by (rule nat_mono)
    then have le: "nat (m * 1000) \<le> 500 * 2 ^ t" by (simp add: nat_mult_distrib nat_power_eq)
    have "(500::nat) * 2 ^ t < 2 ^ 52 * 2 ^ t" by simp
    with le have lt: "nat (m * 1000) < 2 ^ 52 * 2 ^ t" by linarith
    have P: "P = nearest_double (nat (m * 1000)) (2 ^ t)"
      using True e by (simp add: P_def Finite round_to_double_def t_def)
    from nearest_double_le [OF _ lt le] obtain w where
      "float_to_int (nearest_double (nat (m * 1000)) (2 ^ t)) = Inr w" "w \<le> 500" by auto
    then show ?thesis using v(1) P by simp
  qed
  then show ?thesis using v(2) by simp
next
  case PosInf
  then show ?thesis using assms(1) by simp
next
  case NegInf
  then show ?thesis using assms(2) by (simp add: cue_duration_ms_def)
next
  case NaN
  then show ?thesis using assms(1) by simp
qed

lemma round_half_even_exact: "0 < b \<Longrightarrow> round_half_even (x * b) b = x"
  by (simp add: round_half_even_def)

lemma floor_log2_less_neg:
  assumes "0 < a" "0 < b" "a * 2 ^ j < b"
  shows "floor_log2 a b < - int j"
proof -
  let ?d = "int (bit_length a) - int (bit_length b)"
  show ?thesis
  proof (cases "ratio_ge_pow2 a b ?d")
    case True
    then have fl: "floor_log2 a b = ?d" by (simp add: floor_log2_def)
    have neg: "?d < 0"
    proof (rule ccontr)
      assume "\<not> ?d < 0"
      then have "b * 2 ^ nat ?d \<le> a" using True by (simp add: ratio_ge_pow2_def)
      moreover have "b * 1 \<le> b * 2 ^ nat ?d" by (intro mult_le_mono) simp_all
      moreover have "a * 1 \<le> a * 2 ^ j" by (intro mult_le_mono) simp_all
      ultimately show False using assms(3) by simp
    qed
    then have "b \<le> a * 2 ^ nat (- ?d)" using True by (simp add: ratio_ge_pow2_def)
    with assms(3) have "a * 2 ^ j < a * 2 ^ nat (- ?d)" by linarith
    then have "(2::nat) ^ j < 2 ^ nat (- ?d)" by simp
    then have "j < nat (- ?d)" by simp
    then show ?thesis using fl by linarith
  next
    case False
    then have fl: "floor_log2 a b = ?d - 1" by (simp add: floor_log2_def)
    have "2 ^ (bit_length a - 1) * 2 ^ j \<le> a * 2 ^ j"
      using bit_length_bounds [OF assms(1)] by simp
    also have "\<dots> < b" by (rule assms(3))
    also have "b < 2 ^ bit_length b" using bit_length_bounds [OF assms(2)] by simp
    finally have "(2::nat) ^ (bit_length a - 1 + j) < 2 ^ bit_length b"
      by (simp add: power_add)
    then have "bit_length a - 1 + j < bit_length b" by simp
    then show ?thesis using fl by linarith
  qed
qed

lemma nearest_double_exact:
  assumes "a < 2 ^ 53" "k \<le> 1074"
  shows "\<exists>m e. nearest_double a (2 ^ k) = Finite m e \<and> dyadic m e = real a / 2 ^ k"
proof (cases "a = 0")
  case True
  then show ?thesis by (simp add: nearest_double_def dyadic_def)
next
  case False
  then have a: "0 < a" by simp
  define s where "s = max (floor_log2 a (2 ^ k) - 52) (- 1074)"
  have E: "floor_log2 a (2 ^ k) < 53 - int k"
  proof (cases "k \<le> 53")
    case True
    have "(2::nat) ^ (53 - k) * 2 ^ k = 2 ^ (53 - k + k)" by (rule power_add [symmetric])
    also have "53 - k + k = 53" using True by simp
    finally have "a < 2 ^ (53 - k) * 2 ^ k" using assms(1) by simp
    from floor_log2_less [OF a _ this] True show ?thesis by simp
  next
    case False
    have "a * 2 ^ (k - 53) < 2 ^ 53 * 2 ^ (k - 53)" using assms(1) by simp
    also have "(2::nat) ^ 53 * 2 ^ (k - 53) = 2 ^ (53 + (k - 53))" by (rule power_add [symmetric])
    also have "53 + (k - 53) = k" using False by simp
    finally have "a * 2 ^ (k - 53) < 2 ^ k" .
    from floor_log2_less_neg [OF a _ this] False show ?thesis by simp
  qed
  have s_le: "s \<le> - int k" using E assms(2) by (simp add: s_def)
  define t where "t = nat (- s)"
  have t: "k \<le> t" "s = - int t" using s_le by (simp_all add: t_def)
  have "(2::nat) ^ (t - k) * 2 ^ k = 2 ^ (t - k + k)" by (rule power_add [symmetric])
  also have "t - k + k = t" using t(1) by simp
  finally have "a * 2 ^ t = (a * 2 ^ (t - k)) * 2 ^ k" by (simp only: mult.assoc)
  moreover have "round_half_even ((a * 2 ^ (t - k)) * 2 ^ k) (2 ^ k) = a * 2 ^ (t - k)"
    by (rule round_half_even_exact) simp
  ultimately have r: "round_half_even (a * 2 ^ t) (2 ^ k) = a * 2 ^ (t - k)"
    by (simp only:)
  define M where "M = (if 0 \<le> s then round_half_even a (2 ^ k * 2 ^ nat s)
                        else round_half_even (a * 2 ^ nat (- s)) (2 ^ k))"
  have u: "nearest_double a (2 ^ k) =
      (if 0 \<le> s \<and> 2 ^ 1024 \<le> M * 2 ^ nat s then PosInf else Finite (int M) s)"
    using False by (simp add: nearest_double_def Let_def s_def M_def)
  have nd: "nearest_double a (2 ^ k) = Finite (int (a * 2 ^ (t - k))) s"
  proof (cases "s < 0")
    case True
    then have "M = a * 2 ^ (t - k)" using r by (simp add: M_def t_def)
    then show ?thesis using True u by simp
  next
    case False
    then have z: "s = 0" "k = 0" "t = 0" using s_le t by simp_all
    have "round_half_even (a * 1) 1 = a" by (rule round_half_even_exact) simp
    then have "M = a" using z by (simp add: M_def)
    moreover have "\<not> (2::nat) ^ 1024 \<le> a" using assms(1) by simp
    ultimately show ?thesis using u z by simp
  qed
  have "dyadic (int (a * 2 ^ (t - k))) s = real a / 2 ^ k"
  proof -
    have "(2::real) ^ (t - k) * 2 ^ k = 2 ^ (t - k + k)" by (rule power_add [symmetric])
    also have "t - k + k = t" using t(1) by simp
    finally have p: "(2::real) ^ t = 2 ^ (t - k) * 2 ^ k" by simp
    show ?thesis
    proof (cases "t = 0")
      case True
      then show ?thesis using t by (simp add: dyadic_def)
    next
      case False
      then have "dyadic (int (a * 2 ^ (t - k))) s = real a * 2 ^ (t - k) / 2 ^ t"
        using t(2) by (simp add: dyadic_def)
      also have "\<dots> = real a / 2 ^ k" unfolding p by simp
      finally show ?thesis .
    qed
  qed
  then show ?thesis using nd by blast
qed

lemma dyadic_neg: "dyadic (- m) e = - dyadic m e"
  by (simp add: dyadic_def)

text \<open>
  When the product of the duration and 1000 is itself a double, the float product is that
  number: the cue duration is then the real product, truncated.
\<close>

lemma cue_duration_exact:
  assumes "\<bar>m\<bar> * 1000 < 2 ^ 53" "- 1074 \<le> e" "e \<le> 0"
  shows "cue_duration_ms (Finite m e) = Inr (max 500 (truncate_real (dyadic m e * 1000)))"
proof -
  define k where "k = nat (- e)"
  define a where "a = nat (\<bar>m\<bar> * 1000)"
  have k: "k \<le> 1074" "e = - int k" using assms(2,3) by (simp_all add: k_def)
  have "int a < 2 ^ 53" using assms(1) by (simp add: a_def)
  then have a53: "a < 2 ^ 53" by (metis of_nat_less_iff of_nat_numeral of_nat_power)
  from nearest_double_exact [OF a53 k(1)] obtain p q where
    pq: "nearest_double a (2 ^ k) = Finite p q" "dyadic p q = real a / 2 ^ k" by blast
  have prod: "float_mul (Finite m e) (Finite 1000 0) = round_to_double (m * 1000) (2 ^ k)"
    using assms(3) by (cases "e = 0") (simp_all add: k_def)
  have val: "dyadic m e * 1000 = (if m < 0 then - (real a / 2 ^ k) else real a / 2 ^ k)"
    using k(2) by (simp add: dyadic_def a_def abs_if)
  show ?thesis
  proof (cases "m < 0")
    case True
    then have "float_mul (Finite m e) (Finite 1000 0) = Finite (- p) q"
      using prod pq(1) by (simp add: round_to_double_def a_def abs_if mult_neg_pos)
    moreover have "dyadic (- p) q = dyadic m e * 1000" using True val pq(2) by (simp add: dyadic_neg)
    ultimately show ?thesis using cue_duration_finite by metis
  next
    case False
    then have "float_mul (Finite m e) (Finite 1000 0) = Finite p q"
      using prod pq(1) by (simp add: round_to_double_def a_def abs_if)
    moreover have "dyadic p q = dyadic m e * 1000" using False val pq(2) by simp
    ultimately show ?thesis using cue_duration_finite by metis
  qed
qed

section \<open>Properties of \<open>generate_srt\<close>\<close>

lemma generate_srt_result:
  "generate_srt chunks d gap st =
     (case cue_duration_ms d of
        Inl err \<Rightarrow> Inl err
      | Inr D \<Rightarrow>
          (case srt_loop 1 (max 0 st) D (max 0 gap) chunks [] of
             Inl err \<Rightarrow> Inl err
           | Inr ls \<Rightarrow> Inr (strip (join [LF] ls) @ [LF])))"
  by (simp add: generate_srt_def Let_def split: sum.splits)

lemma generate_srt_document:
  assumes "generate_srt chunks d gap st = Inr out"
  shows "\<exists>D. cue_duration_ms d = Inr D \<and> 500 \<le> D \<and>
    out = strip (join [LF] (block_lines
            (cue_blocks 1 (cue_spans (max 0 st) D (max 0 gap) (length chunks)) chunks))) @ [LF] \<and>
    (\<forall>iv \<in> set (cue_spans (max 0 st) D (max 0 gap) (length chunks)). snd iv \<le> timedelta_max_ms)"
proof -
  from assms obtain D ls where
    D: "cue_duration_ms d = Inr D" and
    ls: "srt_loop 1 (max 0 st) D (max 0 gap) chunks [] = Inr ls" and
    out: "out = strip (join [LF] ls) @ [LF]"
    by (auto simp: generate_srt_result split: sum.splits)
  from srt_loop_lines [OF ls] cue_duration_floor [OF D] D out show ?thesis by simp
qed

lemma generate_srt_returns:
  assumes "cue_duration_ms d = Inr D"
    and "\<forall>iv \<in> set (cue_spans (max 0 st) D (max 0 gap) (length chunks)). snd iv \<le> timedelta_max_ms"
  shows "\<exists>out. generate_srt chunks d gap st = Inr out"
proof -
  have "0 \<le> D" using cue_duration_floor [OF assms(1)] by simp
  from srt_loop_ok [OF this _ _ assms(2), of 1 "[]"]
  obtain ls where "srt_loop 1 (max 0 st) D (max 0 gap) chunks [] = Inr ls" by auto
  then show ?thesis using assms(1) by (simp add: generate_srt_result)
qed

lemma generate_srt_overflow:
  assumes "cue_duration_ms d = Inr D"
    and "\<not> (\<forall>iv \<in> set (cue_spans (max 0 st) D (max 0 gap) (length chunks)). snd iv \<le> timedelta_max_ms)"
  shows "generate_srt chunks d gap st = Inl OverflowError"
proof (cases "srt_loop 1 (max 0 st) D (max 0 gap) chunks []")
  case (Inl err)
  then have "err = OverflowError" by (rule srt_loop_error)
  then show ?thesis using Inl assms(1) by (simp add: generate_srt_result)
next
  case (Inr ls)
  from srt_loop_lines [OF this] assms(2) show ?thesis by blast
qed

text \<open>
  Claim C9, as stated: \<open>generate_srt\<close> applied to an empty cue list returns the string of
  one line feed, whatever the timing parameters. The duration is converted before the
  loop, and for a duration that is not a number the conversion raises \<open>ValueError\<close>.
\<close>

theorem generate_srt_empty_counterexample:
  "generate_srt [] NaN 200 0 = Inl ValueError"
  by (simp add: generate_srt_result cue_duration_ms_def)

text \<open>
  Claim C9, amended. \<open>generate_srt\<close> applied to an empty cue list returns exactly the
  one-character string of a single line feed, for every gap, every start and every
  duration whose product with 1000 is a finite float.
\<close>

theorem generate_srt_empty:
  "float_mul d (Finite 1000 0) = Finite m e \<Longrightarrow> generate_srt [] d gap st = Inr [LF]"
proof -
  assume "float_mul d (Finite 1000 0) = Finite m e"
  then obtain D where "cue_duration_ms d = Inr D" using cue_duration_finite by blast
  then show ?thesis by (simp add: generate_srt_result strip_def)
qed

text \<open>The definitions unfolded to run a float product on literals.\<close>

lemmas float_mul_eval = round_to_double_def nearest_double_def floor_log2_def
  ratio_ge_pow2_def bit_length.simps round_half_even_def Let_def

theorem generate_srt_empty_witness:
  "float_mul (Finite 5 (- 1)) (Finite 1000 0) = Finite 5497558138880000 (- 41) \<and>
   generate_srt [] (Finite 5 (- 1)) 200 0 = Inr [LF]"
  using generate_srt_empty [of "Finite 5 (- 1)" 5497558138880000 "- 41" 200 0]
  by (simp add: float_mul_eval)

text \<open>
  The product is a float: for the duration 4.35 (the double \<open>4897664594765414 / 2 ^ 50\<close>,
  a little below 4.35) the exact product is below 4350, the float product is 4350.0, and
  the cue duration is 4350 milliseconds, as in Python.
\<close>

lemma float_product_rounds:
  "float_mul (Finite 4897664594765414 (- 50)) (Finite 1000 0) = Finite 4782875580825600 (- 40) \<and>
   dyadic 4782875580825600 (- 40) = 4350 \<and>
   dyadic 4897664594765414 (- 50) * 1000 < 4350 \<and>
   cue_duration_ms (Finite 4897664594765414 (- 50)) = Inr 4350"
  by (simp add: cue_duration_ms_def float_mul_eval dyadic_def)

text \<open>
  Claim C8, as stated: for every duration strictly below 0.5 seconds \<open>generate_srt\<close> returns
  what it returns for 0.5 seconds. Minus infinity is below 0.5, and there the conversion
  of the duration raises \<open>OverflowError\<close>, while 0.5 gives a document.
\<close>

theorem duration_floor_counterexample:
  "float_less NegInf (Finite 1 (- 1)) \<and>
   generate_srt [] NegInf 200 0 = Inl OverflowError \<and>
   generate_srt [] (Finite 1 (- 1)) 200 0 = Inr [LF]"
  by (simp add: generate_srt_result cue_duration_ms_def float_mul_eval strip_def)

text \<open>
  Claim C8, amended. For every cue list, gap and start, and for every cue duration
  strictly below 0.5 seconds whose product with 1000 is a finite float, \<open>generate_srt\<close>
  returns exactly what it returns with the duration set to 0.5 seconds (the same string,
  or the same error).
\<close>

theorem duration_floor:
  assumes "float_less d (Finite 1 (- 1))" "float_mul d (Finite 1000 0) = Finite m e"
  shows "generate_srt chunks d gap st = generate_srt chunks (Finite 1 (- 1)) gap st"
proof -
  from assms(2) obtain D where D: "cue_duration_ms d = Inr D" using cue_duration_finite by blast
  with assms(1) have "D = 500" by (rule cue_duration_below_half)
  then show ?thesis using D cue_duration_half by (simp add: generate_srt_result)
qed

text \<open>The definitions unfolded to run \<open>generate_srt\<close> on literals.\<close>

lemmas render_eval = generate_srt_result cue_duration_ms_def float_mul_eval timestamp_line_def
  to_timestamp_value timestamp_eval str_int_def strip_def isspace_def LF_def

theorem duration_floor_witness:
  "float_less (Finite 1 (- 2)) (Finite 1 (- 1)) \<and>
   float_mul (Finite 1 (- 2)) (Finite 1000 0) = Finite 8796093022208000 (- 45) \<and>
   generate_srt [ustr ''Hi''] (Finite 1 (- 2)) 200 0 =
     generate_srt [ustr ''Hi''] (Finite 1 (- 1)) 200 0 \<and>
   generate_srt [ustr ''Hi''] (Finite 1 (- 1)) 200 0 =
     Inr (ustr ''1\<newline>00:00:00,000 --> 00:00:00,500\<newline>Hi\<newline>'')"
  using duration_floor [of "Finite 1 (- 2)" 8796093022208000 "- 45" "[ustr ''Hi'']" 200 0]
  by (simp add: render_eval)

text \<open>The example of the specification: one cue, 2.5 seconds, gap 200, start 0.\<close>

lemma generate_srt_example:
  "generate_srt [ustr ''Hi there''] (Finite 5 (- 1)) 200 0 =
     Inr (ustr ''1\<newline>00:00:00,000 --> 00:00:02,500\<newline>Hi there\<newline>'')"
  by (simp add: render_eval)

text \<open>
  Claim C7, as stated: for every integer gap and start \<open>generate_srt\<close> does not fail. A
  start beyond the range of \<open>timedelta\<close> makes \<open>to_timestamp\<close> raise \<open>OverflowError\<close>.
\<close>

theorem numeric_range_counterexample:
  "generate_srt [ustr ''Hi''] (Finite 5 (- 1)) 200 86400000000000000 = Inl OverflowError"
  by (simp add: generate_srt_result cue_duration_ms_def float_mul_eval timestamp_line_def
      to_timestamp_overflow timedelta_max_ms_def)

text \<open>
  Claim C7, amended. For every integer gap and start, negative values included,
  \<open>generate_srt\<close> uses \<open>max 0 gap\<close> and \<open>max 0 start\<close> in their place, so it returns what it
  returns for the clamped values. When the duration converts to milliseconds \<open>D\<close>, it
  returns the document of the cue blocks if the cue list is empty or the end of the last
  cue, \<open>max 0 start + n * D + (n - 1) * max 0 gap\<close>, is at most \<open>86399999999999999\<close>; when
  that end is larger it raises \<open>OverflowError\<close>.
\<close>

theorem generate_srt_clamps:
  "generate_srt chunks d gap st = generate_srt chunks d (max 0 gap) (max 0 st) \<and>
   (cue_duration_ms d = Inr D \<and>
    (chunks = [] \<or>
     max 0 st + int (length chunks) * D + (int (length chunks) - 1) * max 0 gap \<le> timedelta_max_ms)
    \<longrightarrow> generate_srt chunks d gap st =
         Inr (strip (join [LF] (block_lines
                (cue_blocks 1 (cue_spans (max 0 st) D (max 0 gap) (length chunks)) chunks))) @ [LF])) \<and>
   (cue_duration_ms d = Inr D \<and> chunks \<noteq> [] \<and>
    timedelta_max_ms < max 0 st + int (length chunks) * D + (int (length chunks) - 1) * max 0 gap
    \<longrightarrow> generate_srt chunks d gap st = Inl OverflowError)"
proof (intro conjI impI)
  have "max 0 (max 0 st) = max 0 st" "max 0 (max 0 gap) = max 0 gap" by simp_all
  then show "generate_srt chunks d gap st = generate_srt chunks d (max 0 gap) (max 0 st)"
    unfolding generate_srt_result by (simp only:)
next
  assume a: "cue_duration_ms d = Inr D \<and>
    (chunks = [] \<or>
     max 0 st + int (length chunks) * D + (int (length chunks) - 1) * max 0 gap \<le> timedelta_max_ms)"
  then have D: "0 \<le> D" using cue_duration_floor by fastforce
  have g: "0 \<le> max 0 gap" by simp
  have "\<forall>iv \<in> set (cue_spans (max 0 st) D (max 0 gap) (length chunks)). snd iv \<le> timedelta_max_ms"
    using a by (simp add: cue_spans_bounded [OF D g])
  with a obtain out where out: "generate_srt chunks d gap st = Inr out"
    using generate_srt_returns by blast
  from generate_srt_document [OF out] a
  show "generate_srt chunks d gap st =
         Inr (strip (join [LF] (block_lines
                (cue_blocks 1 (cue_spans (max 0 st) D (max 0 gap) (length chunks)) chunks))) @ [LF])"
    using out by auto
next
  assume a: "cue_duration_ms d = Inr D \<and> chunks \<noteq> [] \<and>
    timedelta_max_ms < max 0 st + int (length chunks) * D + (int (length chunks) - 1) * max 0 gap"
  then have D: "0 \<le> D" using cue_duration_floor by fastforce
  have g: "0 \<le> max 0 gap" by simp
  have "\<not> (\<forall>iv \<in> set (cue_spans (max 0 st) D (max 0 gap) (length chunks)). snd iv \<le> timedelta_max_ms)"
    using a by (simp add: cue_spans_bounded [OF D g])
  with a show "generate_srt chunks d gap st = Inl OverflowError"
    using generate_srt_overflow by blast
qed

theorem generate_srt_clamps_witness:
  "generate_srt [ustr ''Hi''] (Finite 5 (- 1)) (- 7) (- 3) =
     generate_srt [ustr ''Hi''] (Finite 5 (- 1)) 0 0 \<and>
   cue_duration_ms (Finite 5 (- 1)) = Inr 2500 \<and>
   generate_srt [ustr ''Hi''] (Finite 5 (- 1)) (- 7) (- 3) =
     Inr (ustr ''1\<newline>00:00:00,000 --> 00:00:02,500\<newline>Hi\<newline>'') \<and>
   generate_srt [ustr ''Hi''] (Finite 5 (- 1)) 200 86400000000000000 = Inl OverflowError"
  using generate_srt_clamps [of "[ustr ''Hi'']" "Finite 5 (- 1)" "- 7" "- 3" 2500]
    generate_srt_clamps [of "[ustr ''Hi'']" "Finite 5 (- 1)" 200 86400000000000000 2500]
  by (auto simp: timedelta_max_ms_def cue_duration_ms_def float_mul_eval block_lines_def
      cue_block_def timestamp_line_def to_timestamp_value timestamp_eval str_int_def strip_def
      isspace_def LF_def)

text \<open>
  Claim C1, as stated: the effective cue duration is \<open>max 500 (round (d * 1000))\<close>. For
  the duration \<open>1025 / 1024\<close> seconds, \<open>d * 1000\<close> is 1000.9765625, which rounds to 1001;
  the code takes \<open>int()\<close> of it, which is 1000, and the cue ends at 1000 milliseconds.
\<close>

theorem duration_rounding_counterexample:
  "cue_duration_ms (Finite 1025 (- 10)) = Inr 1000 \<and>
   dyadic 1025 (- 10) * 1000 = 128125 / 128 \<and>
   max 500 (round (dyadic 1025 (- 10) * 1000)) = 1001 \<and>
   generate_srt [ustr ''Hi''] (Finite 1025 (- 10)) 200 0 =
     Inr (ustr ''1\<newline>00:00:00,000 --> 00:00:01,000\<newline>Hi\<newline>'')"
proof -
  have d: "dyadic 1025 (- 10) * 1000 = 128125 / 128" by (simp add: dyadic_def)
  have "round (128125 / 128 :: real) = 1001" by (simp add: round_def)
  then show ?thesis unfolding d by (simp add: render_eval)
qed

text \<open>
  Claim C1, amended. For every cue list and timing parameters for which
  \<open>generate_srt\<close> returns a document, the float product of the duration and 1000 is
  finite, the effective cue duration in milliseconds is the maximum of 500 and that
  product truncated toward zero (a seconds-to-milliseconds conversion that drops the
  fraction, before the 500 ms floor is applied), and that value is the length of the time
  interval of every cue of the document.
\<close>

theorem cue_duration_truncated:
  assumes "generate_srt chunks d gap st = Inr out"
  shows "\<exists>m e. float_mul d (Finite 1000 0) = Finite m e \<and>
    (let D = max 500 (truncate_real (dyadic m e));
         ivs = cue_spans (max 0 st) D (max 0 gap) (length chunks) in
     cue_duration_ms d = Inr D \<and>
     out = strip (join [LF] (block_lines (cue_blocks 1 ivs chunks))) @ [LF] \<and>
     (\<forall>iv \<in> set ivs. snd iv - fst iv = D))"
proof -
  from generate_srt_document [OF assms] obtain D where
    D: "cue_duration_ms d = Inr D" and
    out: "out = strip (join [LF] (block_lines
            (cue_blocks 1 (cue_spans (max 0 st) D (max 0 gap) (length chunks)) chunks))) @ [LF]"
    by blast
  from D obtain m e where
    me: "float_mul d (Finite 1000 0) = Finite m e" "D = max 500 (truncate_real (dyadic m e))"
    using cue_duration_finite by blast
  have "\<forall>iv \<in> set (cue_spans c D g n). snd iv - fst iv = D" for c g n
    by (induction n arbitrary: c) simp_all
  then show ?thesis using D out me unfolding Let_def by blast
qed

theorem cue_duration_truncated_witness:
  "generate_srt [ustr ''Hi''] (Finite 1025 (- 10)) 200 0 =
     Inr (ustr ''1\<newline>00:00:00,000 --> 00:00:01,000\<newline>Hi\<newline>'') \<and>
   float_mul (Finite 1025 (- 10)) (Finite 1000 0) = Finite 8804682956800000 (- 43) \<and>
   truncate_real (dyadic 8804682956800000 (- 43)) = 1000 \<and>
   cue_spans 0 1000 200 (Suc 0) = [(0, 1000)]"
proof -
  have g: "generate_srt [ustr ''Hi''] (Finite 1025 (- 10)) 200 0 =
     Inr (ustr ''1\<newline>00:00:00,000 --> 00:00:01,000\<newline>Hi\<newline>'')"
    by (simp add: render_eval)
  have p: "float_mul (Finite 1025 (- 10)) (Finite 1000 0) = Finite 8804682956800000 (- 43)"
    by (simp add: float_mul_eval)
  have "float_to_int (Finite 8804682956800000 (- 43)) = Inr 1000" by simp
  then have t: "truncate_real (dyadic 8804682956800000 (- 43)) = 1000"
    by (simp only: float_to_int_truncate sum.inject)
  have sp: "cue_spans 0 1000 200 (Suc 0) = [(0, 1000)]" by simp
  from cue_duration_truncated [OF g]
  have "\<exists>m e. float_mul (Finite 1025 (- 10)) (Finite 1000 0) = Finite m e" by blast
  with g p t sp show ?thesis by blast
qed

section \<open>Reading the document back\<close>

lemma join_snoc_empty: "ls \<noteq> [] \<Longrightarrow> join sep (ls @ [[]]) = join sep ls @ sep"
  by (induction sep ls rule: join.induct) simp_all

lemma join_hd: "ls \<noteq> [] \<Longrightarrow> hd ls \<noteq> [] \<Longrightarrow> hd (join sep ls) = hd (hd ls) \<and> join sep ls \<noteq> []"
  by (induction sep ls rule: join.induct) simp_all

lemma join_nonempty_last: "ls \<noteq> [] \<Longrightarrow> last ls \<noteq> [] \<Longrightarrow> join sep ls \<noteq> []"
  by (induction sep ls rule: join.induct) simp_all

lemma join_last: "ls \<noteq> [] \<Longrightarrow> last ls \<noteq> [] \<Longrightarrow> last (join sep ls) = last (last ls)"
proof (induction sep ls rule: join.induct)
  case (3 sep x y ys)
  then have l: "last (y # ys) \<noteq> []" by simp
  with 3 have ih: "last (join sep (y # ys)) = last (last (y # ys))" by simp
  have "join sep (y # ys) \<noteq> []" using l by (intro join_nonempty_last) simp_all
  then show ?case using ih by simp
qed simp_all

lemma strip_line_feed:
  assumes "s \<noteq> []" "\<not> isspace (hd s)" "\<not> isspace (last s)"
  shows "strip (s @ [LF]) = s"
proof -
  obtain x xs where s: "s = x # xs" using assms(1) by (cases s) auto
  then have front: "dropWhile isspace (s @ [LF]) = s @ [LF]" using assms(2) by simp
  obtain y ys where r: "rev s = y # ys" using assms(1) by (cases "rev s") auto
  then have "y = last s" by (metis last_rev list.sel(1) rev_rev_ident hd_rev)
  then have y: "\<not> isspace y" using assms(3) by simp
  have "isspace LF" by (simp add: isspace_def LF_def)
  then have "dropWhile isspace (rev (s @ [LF])) = rev s" using r y by simp
  then show ?thesis unfolding strip_def front by simp
qed

lemma split_on_prefix:
  "c \<notin> set l \<Longrightarrow> split_on c cur (l @ rest) = split_on c (rev l @ cur) rest"
  by (induction l arbitrary: cur) simp_all

lemma split_on_join:
  "ls \<noteq> [] \<Longrightarrow> \<forall>l \<in> set ls. c \<notin> set l \<Longrightarrow> split_on c cur (join [c] ls) = (rev cur @ hd ls) # tl ls"
proof (induction "[c]" ls arbitrary: cur rule: join.induct)
  case 1
  then show ?case by simp
next
  case (2 x)
  then have "split_on c cur (x @ []) = split_on c (rev x @ cur) []"
    by (intro split_on_prefix) simp
  then show ?case by simp
next
  case (3 x y ys)
  have "split_on c cur (x @ [c] @ join [c] (y # ys)) = split_on c (rev x @ cur) ([c] @ join [c] (y # ys))"
    using 3(3) by (intro split_on_prefix) simp
  also have "\<dots> = (rev cur @ x) # split_on c [] (join [c] (y # ys))" by simp
  also have "split_on c [] (join [c] (y # ys)) = y # ys" using 3 by simp
  finally show ?case by simp
qed

lemma text_lines_join:
  "ls \<noteq> [] \<Longrightarrow> \<forall>l \<in> set ls. LF \<notin> set l \<Longrightarrow> text_lines (join [LF] ls) = ls"
  using split_on_join [of ls LF "[]"] by (simp add: text_lines_def)

lemma blocks_from_block:
  "[] \<notin> set b \<Longrightarrow> cur \<noteq> [] \<or> b \<noteq> [] \<Longrightarrow>
   blocks_from cur (b @ [] # rest) = (rev cur @ b) # blocks_from [] rest"
  by (induction b arbitrary: cur) auto

lemma blocks_from_block_lines:
  "\<forall>b \<in> set bs. b \<noteq> [] \<and> [] \<notin> set b \<Longrightarrow> blocks_from [] (block_lines bs) = bs"
proof (induction bs)
  case Nil
  then show ?case by (simp add: block_lines_Nil)
next
  case (Cons b bs)
  then have "blocks_from [] (b @ [] # block_lines bs) = (rev [] @ b) # blocks_from [] (block_lines bs)"
    by (intro blocks_from_block) simp_all
  then show ?case using Cons by (simp add: block_lines_Cons)
qed

lemma str_int_nat: "str_int (int i) = decimal i"
  by (simp add: str_int_def)

lemma digits_not_space: "c \<in> {48..57} \<Longrightarrow> \<not> isspace c \<and> c \<noteq> LF"
  by (auto simp: isspace_def LF_def)

lemma valid_cue_no_LF: "valid_cue c \<Longrightarrow> LF \<notin> set c"
proof
  assume v: "valid_cue c" and "LF \<in> set c"
  then have "\<not> is_linebreak LF" by (auto simp: valid_cue_def list_all_iff)
  then show False by (simp add: is_linebreak_def LF_def)
qed

lemma cue_spans_nonneg:
  "0 \<le> c \<Longrightarrow> 0 \<le> D \<Longrightarrow> 0 \<le> g \<Longrightarrow> \<forall>iv \<in> set (cue_spans c D g n). 0 \<le> fst iv \<and> fst iv \<le> snd iv"
proof (induction n arbitrary: c)
  case 0
  then show ?case by simp
next
  case (Suc n)
  have "0 \<le> c + D + g" using Suc.prems by simp
  from Suc.IH [OF this Suc.prems(2,3)] show ?case using Suc.prems by simp
qed

lemma cue_blocks_length:
  "length ivs = length chunks \<Longrightarrow> length (cue_blocks i ivs chunks) = length chunks"
  by (induction i ivs chunks rule: cue_blocks.induct) simp_all

lemma cue_blocks_nth:
  "length ivs = length chunks \<Longrightarrow> k < length chunks \<Longrightarrow>
   cue_blocks i ivs chunks ! k = cue_block (i + k) (ivs ! k) (chunks ! k)"
proof (induction i ivs chunks arbitrary: k rule: cue_blocks.induct)
  case (1 i iv ivs tx chunks)
  then show ?case by (cases k) simp_all
qed simp_all

lemma block_lines_shape:
  "chunks \<noteq> [] \<Longrightarrow> length ivs = length chunks \<Longrightarrow>
   \<exists>L. block_lines (cue_blocks i ivs chunks) = L @ [[]] \<and> L \<noteq> [] \<and>
       hd L = str_int (int i) \<and> last L = last chunks"
proof (induction i ivs chunks rule: cue_blocks.induct)
  case (1 i iv ivs tx chunks)
  show ?case
  proof (cases "chunks = []")
    case True
    then have "block_lines (cue_blocks i (iv # ivs) (tx # chunks)) = cue_block i iv tx @ [[]]"
      by (simp add: block_lines_Cons block_lines_Nil)
    then show ?thesis using True by (simp add: cue_block_def)
  next
    case False
    with 1 obtain L where
      L: "block_lines (cue_blocks (Suc i) ivs chunks) = L @ [[]]" "L \<noteq> []" "last L = last chunks"
      by auto
    have "block_lines (cue_blocks i (iv # ivs) (tx # chunks)) = (cue_block i iv tx @ [] # L) @ [[]]"
      by (simp add: block_lines_Cons L(1))
    moreover have "hd (cue_block i iv tx @ [] # L) = str_int (int i)" by (simp add: cue_block_def)
    moreover have "last (cue_block i iv tx @ [] # L) = last (tx # chunks)"
      using L(2,3) False by simp
    ultimately show ?thesis by blast
  qed
qed simp_all

lemma cue_blocks_lines:
  assumes "0 \<le> D" "0 \<le> g"
  shows "0 \<le> c \<Longrightarrow>
    \<forall>iv \<in> set (cue_spans c D g (length chunks)). snd iv \<le> timedelta_max_ms \<Longrightarrow>
    \<forall>t \<in> set chunks. valid_cue t \<Longrightarrow>
    \<forall>b \<in> set (cue_blocks i (cue_spans c D g (length chunks)) chunks).
       b \<noteq> [] \<and> (\<forall>l \<in> set b. l \<noteq> [] \<and> LF \<notin> set l)"
proof (induction chunks arbitrary: i c)
  case Nil
  then show ?case by simp
next
  case (Cons tx chunks)
  have e: "c + D \<le> timedelta_max_ms" using Cons.prems(2) by simp
  then have "c \<le> timedelta_max_ms" using assms(1) by linarith
  with Cons.prems(1) e assms(1) obtain l where
    l: "timestamp_line c (c + D) = Inr l" "l \<noteq> []" "LF \<notin> set l"
    using timestamp_line_ok [of c "c + D"] by auto
  have d: "decimal i \<noteq> []" "LF \<notin> set (decimal i)"
    using decimal_nonempty decimal_digits [of i] digits_not_space by blast+
  have t: "tx \<noteq> []" "LF \<notin> set tx"
    using Cons.prems(3) valid_cue_no_LF by (auto simp: valid_cue_def)
  have b: "cue_block i (c, c + D) tx = [decimal i, l, tx]"
    by (simp add: cue_block_def l(1) str_int_nat)
  have "0 \<le> c + D + g" using Cons.prems(1) assms by simp
  moreover have "\<forall>iv \<in> set (cue_spans (c + D + g) D g (length chunks)). snd iv \<le> timedelta_max_ms"
    using Cons.prems(2) by simp
  moreover have "\<forall>t \<in> set chunks. valid_cue t" using Cons.prems(3) by simp
  ultimately have "\<forall>b \<in> set (cue_blocks (Suc i) (cue_spans (c + D + g) D g (length chunks)) chunks).
       b \<noteq> [] \<and> (\<forall>l \<in> set b. l \<noteq> [] \<and> LF \<notin> set l)"
    by (rule Cons.IH)
  then show ?case using b d t l by simp
qed

lemma block_lines_set: "set (block_lines bs) = (if bs = [] then {} else insert [] (\<Union> (set ` set bs)))"
  by (induction bs) (auto simp: block_lines_Nil block_lines_Cons)

lemma document_of_valid_cues:
  assumes v: "\<forall>t \<in> set chunks. valid_cue t" and ne: "chunks \<noteq> []"
    and D: "0 \<le> D" and g: "0 \<le> g" and c: "0 \<le> c"
    and b: "\<forall>iv \<in> set (cue_spans c D g (length chunks)). snd iv \<le> timedelta_max_ms"
  shows "blank_line_blocks (strip (join [LF] (block_lines
            (cue_blocks 1 (cue_spans c D g (length chunks)) chunks))) @ [LF]) =
         cue_blocks 1 (cue_spans c D g (length chunks)) chunks"
proof -
  define bs where "bs = cue_blocks 1 (cue_spans c D g (length chunks)) chunks"
  have wf: "\<forall>b \<in> set bs. b \<noteq> [] \<and> (\<forall>l \<in> set b. l \<noteq> [] \<and> LF \<notin> set l)"
    unfolding bs_def using D g c b v by (rule cue_blocks_lines)
  have len: "length (cue_spans c D g (length chunks)) = length chunks"
    by (rule cue_spans_length)
  from block_lines_shape [OF ne len, of 1] obtain L where
    L: "block_lines bs = L @ [[]]" "L \<noteq> []" "hd L = str_int (int 1)" "last L = last chunks"
    unfolding bs_def by blast
  have hdL: "hd L = [49]" using L(3) by (simp add: str_int_def decimal.simps)
  have lc: "valid_cue (last chunks)" using v ne by simp
  then have lastL: "last L \<noteq> []" "\<not> isspace (last (last L))"
    using L(4) by (simp_all add: valid_cue_def)
  define body where "body = join [LF] L"
  have doc: "join [LF] (block_lines bs) = body @ [LF]"
    unfolding L(1) body_def using L(2) by (rule join_snoc_empty)
  have "hd body = 49 \<and> body \<noteq> []"
    unfolding body_def using join_hd [OF L(2), of "[LF]"] hdL by simp
  moreover have "\<not> isspace 49" by (simp add: isspace_def)
  moreover have "last body = last (last L)"
    unfolding body_def using L(2) lastL(1) by (rule join_last)
  ultimately have "strip (body @ [LF]) = body"
    using lastL(2) by (intro strip_line_feed) simp_all
  then have out: "strip (join [LF] (block_lines bs)) @ [LF] = join [LF] (block_lines bs)"
    by (simp add: doc)
  have bne: "bs \<noteq> []"
    using L(1) by (auto simp: block_lines_Nil)
  have "\<forall>l \<in> set (block_lines bs). LF \<notin> set l"
    using wf bne by (auto simp: block_lines_set)
  moreover have "block_lines bs \<noteq> []" using L(1) by simp
  ultimately have "text_lines (join [LF] (block_lines bs)) = block_lines bs"
    by (intro text_lines_join) simp_all
  moreover have "blocks_from [] (block_lines bs) = bs"
    using wf by (intro blocks_from_block_lines) auto
  ultimately show ?thesis
    unfolding bs_def [symmetric] out by (simp add: blank_line_blocks_def)
qed

text \<open>The blocks read back from a document \<open>generate_srt\<close> returned for valid cues.\<close>

lemma blocks_of_document:
  assumes "\<forall>t \<in> set chunks. valid_cue t" "generate_srt chunks d gap st = Inr out"
  shows "\<exists>D. cue_duration_ms d = Inr D \<and>
    (let ivs = cue_spans (max 0 st) D (max 0 gap) (length chunks) in
     length (blank_line_blocks out) = length chunks \<and>
     (\<forall>k < length chunks. \<exists>tl.
        timestamp_line (fst (ivs ! k)) (snd (ivs ! k)) = Inr tl \<and>
        blank_line_blocks out ! k = [str_int (int (Suc k)), tl, chunks ! k]))"
proof -
  from generate_srt_document [OF assms(2)] obtain D where
    D: "cue_duration_ms d = Inr D" "500 \<le> D" and
    out: "out = strip (join [LF] (block_lines
            (cue_blocks 1 (cue_spans (max 0 st) D (max 0 gap) (length chunks)) chunks))) @ [LF]" and
    bd: "\<forall>iv \<in> set (cue_spans (max 0 st) D (max 0 gap) (length chunks)). snd iv \<le> timedelta_max_ms"
    by blast
  define ivs where "ivs = cue_spans (max 0 st) D (max 0 gap) (length chunks)"
  have len: "length ivs = length chunks" by (simp add: ivs_def cue_spans_length)
  have D0: "0 \<le> D" using D(2) by simp
  have blocks: "blank_line_blocks out = cue_blocks 1 ivs chunks"
  proof (cases "chunks = []")
    case True
    then have "out = [LF]" using out by (simp add: block_lines_Nil strip_def)
    then show ?thesis using True by (simp add: blank_line_blocks_def text_lines_def)
  next
    case False
    show ?thesis unfolding out ivs_def
      using assms(1) False D0 _ _ bd by (rule document_of_valid_cues) simp_all
  qed
  have n: "length (blank_line_blocks out) = length chunks"
    unfolding blocks using len by (rule cue_blocks_length)
  have each: "\<exists>tl. timestamp_line (fst (ivs ! k)) (snd (ivs ! k)) = Inr tl \<and>
        blank_line_blocks out ! k = [str_int (int (Suc k)), tl, chunks ! k]"
    if k: "k < length chunks" for k
  proof -
    have m: "ivs ! k \<in> set ivs" using k len by simp
    have "0 \<le> fst (ivs ! k) \<and> fst (ivs ! k) \<le> snd (ivs ! k)"
      using cue_spans_nonneg [of "max 0 st" D "max 0 gap" "length chunks"] D0 m
      unfolding ivs_def by simp
    moreover have "snd (ivs ! k) \<le> timedelta_max_ms" using bd m unfolding ivs_def by blast
    ultimately obtain tl where tl: "timestamp_line (fst (ivs ! k)) (snd (ivs ! k)) = Inr tl"
      using timestamp_line_ok [of "fst (ivs ! k)" "snd (ivs ! k)"] by force
    have "blank_line_blocks out ! k = cue_block (1 + k) (ivs ! k) (chunks ! k)"
      unfolding blocks using len k by (rule cue_blocks_nth)
    then show ?thesis using tl by (simp add: cue_block_def)
  qed
  show ?thesis using D(1) n each unfolding Let_def ivs_def by blast
qed

section \<open>Reading the printed intervals back\<close>

lemma foldl_zeros: "foldl (\<lambda>v c. 10 * v + (c - 48)) (0::nat) (replicate k 48) = 0"
  by (induction k) simp_all

lemma read_decimal_format: "0 \<le> i \<Longrightarrow> read_decimal (format_zero w i) = i"
  by (simp add: read_decimal_def format_zero_nonneg foldl_zeros decimal_value)

lemma split_on_single: "c \<notin> set a \<Longrightarrow> split_on c [] a = [a]"
  using split_on_prefix [of c a "[]" "[]"] by simp

lemma split_on_first: "c \<notin> set a \<Longrightarrow> split_on c [] (a @ c # b) = a # split_on c [] b"
  using split_on_prefix [of c a "[]" "c # b"] by simp

lemma format_zero_no_sep:
  assumes "0 \<le> i"
  shows "58 \<notin> set (format_zero w i)" "44 \<notin> set (format_zero w i)" "32 \<notin> set (format_zero w i)"
  using format_zero_digits [OF assms, of w] by auto

lemma read_timestamp_fields:
  assumes "0 \<le> h" "0 \<le> m" "0 \<le> s" "0 \<le> r"
  shows "read_timestamp (format_zero 2 h @ ustr '':'' @ format_zero 2 m @ ustr '':'' @
           format_zero 2 s @ ustr '','' @ format_zero 3 r) =
         Some (((h * 60 + m) * 60 + s) * 1000 + r)"
proof -
  let ?H = "format_zero 2 h" and ?M = "format_zero 2 m" and ?S = "format_zero 2 s"
    and ?R = "format_zero 3 r"
  have "58 \<notin> set (?S @ 44 # ?R)"
    using format_zero_no_sep(1) [OF assms(3)] format_zero_no_sep(1) [OF assms(4)] by simp
  then have a: "split_on 58 [] (?H @ 58 # ?M @ 58 # (?S @ 44 # ?R)) = [?H, ?M, ?S @ 44 # ?R]"
    using format_zero_no_sep(1) [OF assms(1)] format_zero_no_sep(1) [OF assms(2)]
    by (simp add: split_on_first split_on_single del: split_on.simps)
  have b: "split_on 44 [] (?S @ 44 # ?R) = [?S, ?R]"
    using format_zero_no_sep(2) [OF assms(3)] format_zero_no_sep(2) [OF assms(4)]
    by (simp add: split_on_first split_on_single del: split_on.simps)
  have "format_zero 2 h @ ustr '':'' @ format_zero 2 m @ ustr '':'' @
           format_zero 2 s @ ustr '','' @ format_zero 3 r = ?H @ 58 # ?M @ 58 # (?S @ 44 # ?R)"
    by (simp add: ustr_def)
  then show ?thesis
    unfolding read_timestamp_def by (simp only: a b list.case) (simp add: read_decimal_format assms)
qed

lemma milliseconds_fields:
  fixes ms :: int
  shows "((ms div 3600000 * 60 + ms div 60000 mod 60) * 60 + ms div 1000 mod 60) * 1000 + ms mod 1000 = ms"
proof -
  define x where "x = ms div 1000"
  define y where "y = x div 60"
  have y60: "y = ms div 60000" unfolding y_def x_def using zdiv_zmult2_eq [of 1000 ms 60] by simp
  have y3600: "y div 60 = ms div 3600000" unfolding y60 using zdiv_zmult2_eq [of 60000 ms 60] by simp
  have "ms = 1000 * x + ms mod 1000" by (simp add: x_def)
  moreover have "x = 60 * y + x mod 60" by (simp add: y_def)
  moreover have "y = 60 * (y div 60) + y mod 60" by simp
  ultimately have "((y div 60 * 60 + y mod 60) * 60 + x mod 60) * 1000 + ms mod 1000 = ms"
    by (simp add: algebra_simps)
  then show ?thesis by (simp add: y3600 y60 [symmetric] x_def)
qed

lemma read_to_timestamp:
  assumes "0 \<le> ms" "ms < exact_limit_ms"
  shows "\<exists>s. to_timestamp ms = Inr s \<and> read_timestamp s = Some ms \<and> 32 \<notin> set s"
proof -
  define s where "s = format_zero 2 (ms div 3600000) @ ustr '':'' @
           format_zero 2 (ms div 60000 mod 60) @ ustr '':'' @
           format_zero 2 (ms div 1000 mod 60) @ ustr '','' @ format_zero 3 (ms mod 1000)"
  have t: "to_timestamp ms = Inr s"
    unfolding s_def using assms by (intro to_timestamp_value) (simp_all add: exact_limit_ms_def)
  have f: "0 \<le> ms div 3600000" "0 \<le> ms div 60000 mod 60" "0 \<le> ms div 1000 mod 60" "0 \<le> ms mod 1000"
    using assms(1) by (simp_all add: pos_imp_zdiv_nonneg_iff)
  have "read_timestamp s =
      Some (((ms div 3600000 * 60 + ms div 60000 mod 60) * 60 + ms div 1000 mod 60) * 1000 + ms mod 1000)"
    unfolding s_def using f by (rule read_timestamp_fields)
  then have r: "read_timestamp s = Some ms" by (simp only: milliseconds_fields)
  have "32 \<notin> set s"
    unfolding s_def using format_zero_no_sep(3) [OF f(1)] format_zero_no_sep(3) [OF f(2)]
      format_zero_no_sep(3) [OF f(3)] format_zero_no_sep(3) [OF f(4)]
    by (simp add: ustr_def)
  then show ?thesis using t r by blast
qed

lemma read_timestamp_line_exact:
  assumes "0 \<le> a" "a < exact_limit_ms" "0 \<le> b" "b < exact_limit_ms"
  shows "\<exists>l. timestamp_line a b = Inr l \<and> read_timestamp_line l = Some (a, b)"
proof -
  from read_to_timestamp [OF assms(1,2)] obtain x where
    x: "to_timestamp a = Inr x" "read_timestamp x = Some a" "32 \<notin> set x" by blast
  from read_to_timestamp [OF assms(3,4)] obtain y where
    y: "to_timestamp b = Inr y" "read_timestamp y = Some b" "32 \<notin> set y" by blast
  have l: "timestamp_line a b = Inr (x @ ustr '' --> '' @ y)"
    by (simp add: timestamp_line_def x(1) y(1))
  have "x @ ustr '' --> '' @ y = x @ 32 # ([45, 45, 62] @ 32 # y)" by (simp add: ustr_def)
  moreover have "split_on 32 [] (x @ 32 # ([45, 45, 62] @ 32 # y)) = [x, [45, 45, 62], y]"
  proof -
    have "split_on 32 [] (x @ 32 # ([45, 45, 62] @ 32 # y)) =
        x # split_on 32 [] ([45, 45, 62] @ 32 # y)"
      using x(3) by (rule split_on_first)
    also have "split_on 32 [] ([45, 45, 62] @ 32 # y) = [45, 45, 62] # split_on 32 [] y"
      by (rule split_on_first) simp
    also have "split_on 32 [] y = [y]" using y(3) by (rule split_on_single)
    finally show ?thesis .
  qed
  moreover have "ustr ''-->'' = [45, 45, 62]" by (simp add: ustr_def)
  ultimately have "read_timestamp_line (x @ ustr '' --> '' @ y) = Some (a, b)"
    unfolding read_timestamp_line_def by (simp add: x(2) y(2) del: split_on.simps)
  then show ?thesis using l by blast
qed

section \<open>The intervals and the blocks of the document\<close>

lemma exact_limit_le_max: "exact_limit_ms \<le> timedelta_max_ms"
  by (simp add: exact_limit_ms_def timedelta_max_ms_def)

text \<open>
  Claim C2, as stated: for every non-empty cue list and all timing parameters, each
  interval \<open>generate_srt\<close> produces ends at its start plus the effective cue duration and
  each later one starts at the end of the one before plus the effective gap, so the starts
  increase strictly and no interval overlaps the next. With two cues, a duration of 0.5
  seconds, gap 0 and start \<open>17592186044416499\<close>, the first cue ends at
  \<open>17592186044416999\<close>, whose seconds are printed rounded up: the first block reads as an
  interval of 1500 milliseconds, and the second block ends before it starts. With a
  duration that is not a number there is no document and no interval.
\<close>

theorem printed_intervals_counterexample:
  "generate_srt [ustr ''a'', ustr ''b''] (Finite 1 (- 1)) 0 17592186044416499 =
     Inr (ustr ''1\<newline>4886718345:40:16,499 --> 4886718345:40:17,999\<newline>a\<newline>\<newline>2\<newline>4886718345:40:17,999 --> 4886718345:40:17,499\<newline>b\<newline>'') \<and>
   read_timestamp_line (ustr ''4886718345:40:16,499 --> 4886718345:40:17,999'') =
     Some (17592186044416499, 17592186044417999) \<and>
   read_timestamp_line (ustr ''4886718345:40:17,999 --> 4886718345:40:17,499'') =
     Some (17592186044417999, 17592186044417499) \<and>
   (17592186044417499::int) < 17592186044417999 \<and>
   generate_srt [ustr ''a'', ustr ''b''] NaN 0 0 = Inl ValueError"
proof -
  have t1: "to_timestamp 17592186044416499 = Inr (ustr ''4886718345:40:16,499'')"
    by (simp add: to_timestamp_def timedelta_range float_eval timestamp_eval)
  have t2: "to_timestamp 17592186044416999 = Inr (ustr ''4886718345:40:17,999'')"
    by (simp add: to_timestamp_def timedelta_range float_eval timestamp_eval)
  have t3: "to_timestamp 17592186044417499 = Inr (ustr ''4886718345:40:17,499'')"
    by (simp add: to_timestamp_def timedelta_range float_eval timestamp_eval)
  have D: "cue_duration_ms (Finite 1 (- 1)) = Inr 500" by (rule cue_duration_half)
  have g: "generate_srt [ustr ''a'', ustr ''b''] (Finite 1 (- 1)) 0 17592186044416499 =
     Inr (ustr ''1\<newline>4886718345:40:16,499 --> 4886718345:40:17,999\<newline>a\<newline>\<newline>2\<newline>4886718345:40:17,999 --> 4886718345:40:17,499\<newline>b\<newline>'')"
    by (simp add: generate_srt_result D timestamp_line_def t1 t2 t3 str_int_def decimal.simps
        strip_def isspace_def LF_def ustr_def)
  have r1: "read_timestamp_line (ustr ''4886718345:40:16,499 --> 4886718345:40:17,999'') =
     Some (17592186044416499, 17592186044417999)"
    by (simp add: read_timestamp_line_def read_timestamp_def read_decimal_def ustr_def)
  have r2: "read_timestamp_line (ustr ''4886718345:40:17,999 --> 4886718345:40:17,499'') =
     Some (17592186044417999, 17592186044417499)"
    by (simp add: read_timestamp_line_def read_timestamp_def read_decimal_def ustr_def)
  have n: "generate_srt [ustr ''a'', ustr ''b''] NaN 0 0 = Inl ValueError"
    by (simp add: generate_srt_result cue_duration_ms_def)
  show ?thesis using g r1 r2 n by simp
qed

text \<open>
  Claim C2, amended. For every non-empty cue list and all timing parameters such that the
  duration converts to \<open>D\<close> milliseconds and the end of the last cue,
  \<open>max 0 start + n * D + (n - 1) * max 0 gap\<close>, is below \<open>17592186044416999\<close>,
  \<open>generate_srt\<close> returns a document, the text of one block for each cue (for valid cues,
  the blocks read back from the document), and block \<open>k\<close> holds the index \<open>k + 1\<close>, a
  timestamp line that reads back as the interval \<open>ivs ! k\<close>, and the cue text. The end of
  each interval is its start plus \<open>D\<close>, and the start of each later interval is the end of
  the one before plus \<open>max 0 gap\<close>; so the starts increase strictly and no interval
  overlaps the next.
\<close>

theorem printed_intervals:
  assumes "chunks \<noteq> []" "cue_duration_ms d = Inr D"
    "max 0 st + int (length chunks) * D + (int (length chunks) - 1) * max 0 gap < exact_limit_ms"
  shows "\<exists>out. generate_srt chunks d gap st = Inr out \<and>
    (let ivs = cue_spans (max 0 st) D (max 0 gap) (length chunks);
         bs = cue_blocks 1 ivs chunks in
     out = strip (join [LF] (block_lines bs)) @ [LF] \<and>
     length bs = length chunks \<and> length ivs = length chunks \<and>
     ((\<forall>t \<in> set chunks. valid_cue t) \<longrightarrow> blank_line_blocks out = bs) \<and>
     (\<forall>k < length chunks. \<exists>tl.
        bs ! k = [str_int (int (Suc k)), tl, chunks ! k] \<and>
        read_timestamp_line tl = Some (ivs ! k) \<and>
        snd (ivs ! k) = fst (ivs ! k) + D) \<and>
     (\<forall>k. Suc k < length chunks \<longrightarrow>
        fst (ivs ! Suc k) = snd (ivs ! k) + max 0 gap \<and>
        fst (ivs ! k) < fst (ivs ! Suc k) \<and>
        snd (ivs ! k) \<le> fst (ivs ! Suc k)))"
proof -
  define ivs where "ivs = cue_spans (max 0 st) D (max 0 gap) (length chunks)"
  define bs where "bs = cue_blocks 1 ivs chunks"
  have D500: "500 \<le> D" using assms(2) by (rule cue_duration_floor)
  then have D0: "0 \<le> D" by simp
  have g0: "0 \<le> max 0 gap" and c0: "0 \<le> max 0 st" by simp_all
  have len: "length ivs = length chunks" by (simp add: ivs_def cue_spans_length)
  have lbs: "length bs = length chunks" unfolding bs_def using len by (rule cue_blocks_length)
  have below: "\<forall>iv \<in> set ivs. snd iv \<le> exact_limit_ms - 1"
  proof -
    have "max 0 st + int (length chunks) * D + (int (length chunks) - 1) * max 0 gap
          \<le> exact_limit_ms - 1"
      using assms(3) by linarith
    then show ?thesis
      unfolding ivs_def using cue_spans_bounded [OF D0 g0] by blast
  qed
  have nonneg: "\<forall>iv \<in> set ivs. 0 \<le> fst iv \<and> fst iv \<le> snd iv"
    unfolding ivs_def using c0 D0 g0 by (rule cue_spans_nonneg)
  have bd: "\<forall>iv \<in> set (cue_spans (max 0 st) D (max 0 gap) (length chunks)). snd iv \<le> timedelta_max_ms"
    using below exact_limit_le_max unfolding ivs_def by fastforce
  from generate_srt_returns [OF assms(2) bd] obtain out where
    out: "generate_srt chunks d gap st = Inr out" by blast
  from generate_srt_document [OF out] assms(2)
  have doc: "out = strip (join [LF] (block_lines bs)) @ [LF]"
    unfolding bs_def ivs_def by simp
  have valid: "blank_line_blocks out = bs" if "\<forall>t \<in> set chunks. valid_cue t"
    unfolding doc bs_def ivs_def
    using that assms(1) D0 g0 c0 bd by (rule document_of_valid_cues)
  have nth: "ivs ! k = (max 0 st + int k * (D + max 0 gap), max 0 st + int k * (D + max 0 gap) + D)"
    if "k < length chunks" for k
    using that by (simp add: ivs_def cue_spans_nth)
  have each: "\<exists>tl. bs ! k = [str_int (int (Suc k)), tl, chunks ! k] \<and>
        read_timestamp_line tl = Some (ivs ! k) \<and> snd (ivs ! k) = fst (ivs ! k) + D"
    if k: "k < length chunks" for k
  proof -
    have m: "ivs ! k \<in> set ivs" using k len by simp
    have "0 \<le> fst (ivs ! k)" "fst (ivs ! k) \<le> snd (ivs ! k)" "snd (ivs ! k) < exact_limit_ms"
      using nonneg below m by fastforce+
    then obtain tl where
      tl: "timestamp_line (fst (ivs ! k)) (snd (ivs ! k)) = Inr tl"
          "read_timestamp_line tl = Some (fst (ivs ! k), snd (ivs ! k))"
      using read_timestamp_line_exact [of "fst (ivs ! k)" "snd (ivs ! k)"] by force
    have "bs ! k = cue_block (1 + k) (ivs ! k) (chunks ! k)"
      unfolding bs_def using len k by (rule cue_blocks_nth)
    then have "bs ! k = [str_int (int (Suc k)), tl, chunks ! k]"
      using tl(1) by (simp add: cue_block_def)
    moreover have "snd (ivs ! k) = fst (ivs ! k) + D" using nth [OF k] by simp
    ultimately show ?thesis using tl(2) by (simp add: prod_eq_iff)
  qed
  have step: "fst (ivs ! Suc k) = snd (ivs ! k) + max 0 gap \<and>
        fst (ivs ! k) < fst (ivs ! Suc k) \<and> snd (ivs ! k) \<le> fst (ivs ! Suc k)"
    if "Suc k < length chunks" for k
  proof -
    have "k < length chunks" using that by simp
    then show ?thesis using nth [OF that] nth [of k] D500 by (simp add: algebra_simps)
  qed
  show ?thesis
    using out doc lbs len valid each step unfolding Let_def ivs_def [symmetric] bs_def [symmetric]
    by blast
qed

theorem printed_intervals_witness:
  "[ustr ''Hi'', ustr ''Yo''] \<noteq> [] \<and>
   cue_duration_ms (Finite 5 (- 1)) = Inr 2500 \<and>
   max 0 0 + int (length [ustr ''Hi'', ustr ''Yo'']) * 2500 +
     (int (length [ustr ''Hi'', ustr ''Yo'']) - 1) * max 0 200 < exact_limit_ms \<and>
   generate_srt [ustr ''Hi'', ustr ''Yo''] (Finite 5 (- 1)) 200 0 =
     Inr (ustr ''1\<newline>00:00:00,000 --> 00:00:02,500\<newline>Hi\<newline>\<newline>2\<newline>00:00:02,700 --> 00:00:05,200\<newline>Yo\<newline>'') \<and>
   cue_spans 0 2500 200 (Suc (Suc 0)) = [(0, 2500), (2700, 5200)] \<and>
   read_timestamp_line (ustr ''00:00:00,000 --> 00:00:02,500'') = Some (0, 2500) \<and>
   read_timestamp_line (ustr ''00:00:02,700 --> 00:00:05,200'') = Some (2700, 5200)"
proof -
  have ne: "[ustr ''Hi'', ustr ''Yo''] \<noteq> []" by simp
  have D: "cue_duration_ms (Finite 5 (- 1)) = Inr 2500"
    by (simp add: cue_duration_ms_def float_mul_eval)
  have b: "max 0 0 + int (length [ustr ''Hi'', ustr ''Yo'']) * 2500 +
     (int (length [ustr ''Hi'', ustr ''Yo'']) - 1) * max 0 200 < exact_limit_ms"
    by (simp add: exact_limit_ms_def)
  have g: "generate_srt [ustr ''Hi'', ustr ''Yo''] (Finite 5 (- 1)) 200 0 =
     Inr (ustr ''1\<newline>00:00:00,000 --> 00:00:02,500\<newline>Hi\<newline>\<newline>2\<newline>00:00:02,700 --> 00:00:05,200\<newline>Yo\<newline>'')"
    by (simp add: render_eval)
  have sp: "cue_spans 0 2500 200 (Suc (Suc 0)) = [(0, 2500), (2700, 5200)]" by simp
  have r1: "read_timestamp_line (ustr ''00:00:00,000 --> 00:00:02,500'') = Some (0, 2500)"
    by (simp add: read_timestamp_line_def read_timestamp_def read_decimal_def ustr_def)
  have r2: "read_timestamp_line (ustr ''00:00:02,700 --> 00:00:05,200'') = Some (2700, 5200)"
    by (simp add: read_timestamp_line_def read_timestamp_def read_decimal_def ustr_def)
  from printed_intervals [OF ne D b]
  have "\<exists>out. generate_srt [ustr ''Hi'', ustr ''Yo''] (Finite 5 (- 1)) 200 0 = Inr out" by blast
  with ne D b g sp r1 r2 show ?thesis by blast
qed

text \<open>
  Claim C4, as stated: for valid cues and all timing parameters, the output of
  \<open>generate_srt\<close> splits at its blank lines into one block for each cue. With a valid cue
  and a duration that is not a number, or a start beyond the range of \<open>timedelta\<close>,
  \<open>generate_srt\<close> raises and there is no output.
\<close>

theorem render_blocks_counterexample:
  "valid_cue (ustr ''Hi'') \<and>
   generate_srt [ustr ''Hi''] NaN 200 0 = Inl ValueError \<and>
   generate_srt [ustr ''Hi''] (Finite 5 (- 1)) 200 86400000000000000 = Inl OverflowError"
  by (simp add: valid_cue_def ustr_def isspace_def is_linebreak_def generate_srt_result
      cue_duration_ms_def float_mul_eval timestamp_line_def to_timestamp_overflow
      timedelta_max_ms_def)

text \<open>
  Claim C4, amended. For every cue list in which each cue is a non-empty string with no
  whitespace at either end and no line break, and for all timing parameters such that the
  duration converts to \<open>D\<close> milliseconds and the cue list is empty or the end of the last
  cue, \<open>max 0 start + n * D + (n - 1) * max 0 gap\<close>, is at most \<open>86399999999999999\<close>,
  \<open>generate_srt\<close> returns a document which, split at its blank lines, has exactly as many
  blocks as there are cues; block \<open>k\<close> (counted from 0) consists of the index line
  \<open>k + 1\<close>, the timestamp line of the interval of cue \<open>k\<close>, and the text of cue \<open>k\<close>
  unchanged.
\<close>

theorem render_blocks:
  assumes "\<forall>t \<in> set chunks. valid_cue t" "cue_duration_ms d = Inr D"
    "chunks = [] \<or>
     max 0 st + int (length chunks) * D + (int (length chunks) - 1) * max 0 gap \<le> timedelta_max_ms"
  shows "\<exists>out. generate_srt chunks d gap st = Inr out \<and>
    (let ivs = cue_spans (max 0 st) D (max 0 gap) (length chunks) in
     length (blank_line_blocks out) = length chunks \<and>
     (\<forall>k < length chunks. \<exists>tl.
        timestamp_line (fst (ivs ! k)) (snd (ivs ! k)) = Inr tl \<and>
        blank_line_blocks out ! k = [str_int (int (Suc k)), tl, chunks ! k]))"
proof -
  have D0: "0 \<le> D" using cue_duration_floor [OF assms(2)] by simp
  have g0: "0 \<le> max 0 gap" by simp
  have "\<forall>iv \<in> set (cue_spans (max 0 st) D (max 0 gap) (length chunks)). snd iv \<le> timedelta_max_ms"
    using assms(3) by (simp add: cue_spans_bounded [OF D0 g0])
  with assms(2) obtain out where out: "generate_srt chunks d gap st = Inr out"
    using generate_srt_returns by blast
  from blocks_of_document [OF assms(1) out] assms(2) out show ?thesis by auto
qed

theorem render_blocks_witness:
  "valid_cue (ustr ''Hi there'') \<and> valid_cue (ustr ''Yo'') \<and>
   cue_duration_ms (Finite 5 (- 1)) = Inr 2500 \<and>
   max 0 0 + int (length [ustr ''Hi there'', ustr ''Yo'']) * 2500 +
     (int (length [ustr ''Hi there'', ustr ''Yo'']) - 1) * max 0 200 \<le> timedelta_max_ms \<and>
   generate_srt [ustr ''Hi there'', ustr ''Yo''] (Finite 5 (- 1)) 200 0 =
     Inr (ustr ''1\<newline>00:00:00,000 --> 00:00:02,500\<newline>Hi there\<newline>\<newline>2\<newline>00:00:02,700 --> 00:00:05,200\<newline>Yo\<newline>'') \<and>
   blank_line_blocks
     (ustr ''1\<newline>00:00:00,000 --> 00:00:02,500\<newline>Hi there\<newline>\<newline>2\<newline>00:00:02,700 --> 00:00:05,200\<newline>Yo\<newline>'') =
     [[ustr ''1'', ustr ''00:00:00,000 --> 00:00:02,500'', ustr ''Hi there''],
      [ustr ''2'', ustr ''00:00:02,700 --> 00:00:05,200'', ustr ''Yo'']]"
proof -
  have v: "valid_cue (ustr ''Hi there'')" "valid_cue (ustr ''Yo'')"
    by (simp_all add: valid_cue_def ustr_def isspace_def is_linebreak_def)
  then have all: "\<forall>t \<in> set [ustr ''Hi there'', ustr ''Yo'']. valid_cue t" by simp
  have D: "cue_duration_ms (Finite 5 (- 1)) = Inr 2500"
    by (simp add: cue_duration_ms_def float_mul_eval)
  have b: "max 0 0 + int (length [ustr ''Hi there'', ustr ''Yo'']) * 2500 +
     (int (length [ustr ''Hi there'', ustr ''Yo'']) - 1) * max 0 200 \<le> timedelta_max_ms"
    by (simp add: timedelta_max_ms_def)
  have g: "generate_srt [ustr ''Hi there'', ustr ''Yo''] (Finite 5 (- 1)) 200 0 =
     Inr (ustr ''1\<newline>00:00:00,000 --> 00:00:02,500\<newline>Hi there\<newline>\<newline>2\<newline>00:00:02,700 --> 00:00:05,200\<newline>Yo\<newline>'')"
    by (simp add: render_eval)
  have p: "blank_line_blocks
     (ustr ''1\<newline>00:00:00,000 --> 00:00:02,500\<newline>Hi there\<newline>\<newline>2\<newline>00:00:02,700 --> 00:00:05,200\<newline>Yo\<newline>'') =
     [[ustr ''1'', ustr ''00:00:00,000 --> 00:00:02,500'', ustr ''Hi there''],
      [ustr ''2'', ustr ''00:00:02,700 --> 00:00:05,200'', ustr ''Yo'']]"
    by (simp add: blank_line_blocks_def text_lines_def LF_def ustr_def)
  from render_blocks [OF all D disjI2 [OF b]]
  have "\<exists>out. generate_srt [ustr ''Hi there'', ustr ''Yo''] (Finite 5 (- 1)) 200 0 = Inr out"
    by blast
  with v D b g p show ?thesis by blast
qed

end
